theory Spec2Isabelle
  imports Main "HOL-Library.Word" "HOL-Library.Monad_Syntax"
begin

unbundle bit_operations_syntax

section \<open>The LRU cache shard of util/cache.cc\<close>

text \<open>
  The model follows util/cache.cc function by function.

  \<^item> A pointer to an \<open>LRUHandle\<close> is an address (\<open>addr\<close>); a nullable pointer is an
    \<open>addr option\<close> with \<open>None\<close> for \<open>nullptr\<close>.  The records themselves live in a
    memory \<open>mem\<close>, a partial map from addresses; \<open>free\<close> removes the address.
    \<open>malloc\<close> hands out the addresses \<open>0, 1, 2, ...\<close> in turn (\<open>brk\<close> is the next one),
    so an address is never given out twice.
  \<^item> The two circular doubly linked lists rooted at \<open>lru_\<close> and \<open>in_use_\<close> are lists of
    addresses, oldest entry (\<open>head.next\<close>) first and newest entry (\<open>head.prev\<close>) last.  A
    bucket chain of the hash table (linked through \<open>next_hash\<close>) is a list of addresses
    too, the bucket head first.  The link fields \<open>next\<close>, \<open>prev\<close> and \<open>next_hash\<close>
    therefore do not appear in the record.
  \<^item> \<open>uint32_t\<close> is \<open>32 word\<close> and \<open>size_t\<close> is \<open>64 word\<close>: \<open>refs++\<close>,
    \<open>usage_ += charge\<close>, \<open>new_length *= 2\<close> wrap around as in C++.
  \<^item> Every operation returns an \<open>option\<close>.  \<open>None\<close> means that the call did not return
    normally: an \<open>assert\<close> of the source failed (the asserts are checked, as in a build
    without \<open>NDEBUG\<close>), a record was read after \<open>free\<close>, an array was indexed outside
    its bounds, a record on neither list was unlinked, or the doubling loop of \<open>Resize\<close>
    did not terminate.
  \<^item> Calling \<open>(*e->deleter)(e->key(), e->value)\<close> appends the call to the log
    \<open>deleted\<close>, as the \<open>Deleter\<close> of util/cache_test.cc does; the log also keeps the
    address of the record the call was made for.
  \<^item> A member name of the source ends in an underscore, which a HOL name cannot:
    \<open>capacity_\<close>, \<open>usage_\<close>, \<open>lru_\<close>, \<open>in_use_\<close>, \<open>table_\<close> are \<open>capacity\<close>, \<open>usage\<close>,
    \<open>lru\<close>, \<open>in_use\<close>, \<open>table\<close>, and the members \<open>length_\<close>, \<open>elems_\<close>, \<open>list_\<close> of the
    table are \<open>ht_length\<close>, \<open>ht_elems\<close>, \<open>ht_list\<close>.  The field \<open>value\<close> is \<open>val\<close>.  The
    methods \<open>Lookup\<close>, \<open>Insert\<close> and \<open>Remove\<close> of \<open>HandleTable\<close> are \<open>HT_Lookup\<close>,
    \<open>HT_Insert\<close> and \<open>HT_Remove\<close>; the plain names are the methods of \<open>LRUCache\<close>.
  \<^item> The mutex is not modelled: every operation of a shard runs under the shard's
    mutex from its first to its last statement, so operations are atomic steps.
\<close>

type_synonym addr = nat
type_synonym Slice = string
type_synonym uint32_t = "32 word"
type_synonym size_t = "64 word"

record LRUHandle =
  val :: nat
  deleter :: nat
  charge :: size_t
  in_cache :: bool
  refs :: uint32_t
  hash :: uint32_t
  key_data :: Slice

type_synonym memory = "addr \<Rightarrow> LRUHandle option"

definition assert :: "bool \<Rightarrow> unit option" where
  "assert b = (if b then Some () else None)"

subsection \<open>HandleTable\<close>

record HandleTable =
  ht_length :: uint32_t
  ht_elems :: uint32_t
  ht_list :: "addr list list"

text \<open>
  \<open>FindPointer\<close> returns a pointer to a slot: the pair of the bucket index and the
  position in the bucket's chain.  Position \<open>length chain\<close> is the trailing slot, which
  holds \<open>nullptr\<close>.  \<open>walk\<close> is the while loop of \<open>FindPointer\<close> on one chain.
\<close>

fun walk :: "memory \<Rightarrow> Slice \<Rightarrow> uint32_t \<Rightarrow> addr list \<Rightarrow> nat option" where
  "walk M k h [] = Some 0"
| "walk M k h (p # ps) =
     (case M p of
        None \<Rightarrow> None
      | Some e \<Rightarrow>
          if hash e \<noteq> h \<or> k \<noteq> key_data e then map_option Suc (walk M k h ps)
          else Some 0)"

definition FindPointer :: "memory \<Rightarrow> HandleTable \<Rightarrow> Slice \<Rightarrow> uint32_t \<Rightarrow> (nat \<times> nat) option" where
  "FindPointer M t k h =
     (let b = unat (h AND (ht_length t - 1)) in
      if b < length (ht_list t) then map_option (Pair b) (walk M k h (ht_list t ! b))
      else None)"

text \<open>\<open>*ptr\<close> for a slot \<open>ptr\<close> returned by \<open>FindPointer\<close>.\<close>

definition slot :: "HandleTable \<Rightarrow> nat \<times> nat \<Rightarrow> addr option" where
  "slot t ptr =
     (let c = ht_list t ! fst ptr in
      if snd ptr < length c then Some (c ! snd ptr) else None)"

definition HT_Lookup :: "memory \<Rightarrow> HandleTable \<Rightarrow> Slice \<Rightarrow> uint32_t \<Rightarrow> addr option option" where
  "HT_Lookup M t k h = map_option (slot t) (FindPointer M t k h)"

text \<open>The first loop of \<open>Resize\<close>: \<open>while (new_length < elems_) new_length *= 2\<close>.\<close>

partial_function (option) Resize_length :: "uint32_t \<Rightarrow> uint32_t \<Rightarrow> uint32_t option" where
  "Resize_length new_length elems =
     (if new_length < elems then Resize_length (new_length * 2) elems
      else Some new_length)"

text \<open>
  The second loop of \<open>Resize\<close> visits the old buckets in index order and each chain
  from its head, and pushes every entry on the front of its new bucket.
\<close>

fun rehash :: "memory \<Rightarrow> uint32_t \<Rightarrow> addr list \<Rightarrow> addr list list \<times> uint32_t
    \<Rightarrow> (addr list list \<times> uint32_t) option" where
  "rehash M new_length [] acc = Some acc"
| "rehash M new_length (p # ps) (new_list, count) =
     (case M p of
        None \<Rightarrow> None
      | Some e \<Rightarrow>
          let b = unat (hash e AND (new_length - 1)) in
          if b < length new_list
          then rehash M new_length ps (new_list[b := p # new_list ! b], count + 1)
          else None)"

definition Resize :: "memory \<Rightarrow> HandleTable \<Rightarrow> HandleTable option" where
  "Resize M t =
     do {
       new_length \<leftarrow> Resize_length 4 (ht_elems t);
       (new_list, count) \<leftarrow>
         rehash M new_length (concat (take (unat (ht_length t)) (ht_list t)))
           (replicate (unat new_length) [], 0);
       _ \<leftarrow> assert (ht_elems t = count);
       Some (t\<lparr>ht_list := new_list, ht_length := new_length\<rparr>)
     }"

definition HandleTable_new :: "HandleTable option" where
  "HandleTable_new = Resize (\<lambda>_. None) \<lparr>ht_length = 0, ht_elems = 0, ht_list = []\<rparr>"

definition HT_Insert :: "memory \<Rightarrow> HandleTable \<Rightarrow> addr \<Rightarrow> (addr option \<times> HandleTable) option" where
  "HT_Insert M t h =
     do {
       e \<leftarrow> M h;
       ptr \<leftarrow> FindPointer M t (key_data e) (hash e);
       let old = slot t ptr;
       let c = ht_list t ! fst ptr;
       let t1 = t\<lparr>ht_list := (ht_list t)[fst ptr :=
                  (if old = None then c @ [h] else c[snd ptr := h])]\<rparr>;
       if old = None then
         let t2 = t1\<lparr>ht_elems := ht_elems t1 + 1\<rparr> in
         if ht_elems t2 > ht_length t2 then map_option (Pair old) (Resize M t2)
         else Some (old, t2)
       else Some (old, t1)
     }"

definition HT_Remove :: "memory \<Rightarrow> HandleTable \<Rightarrow> Slice \<Rightarrow> uint32_t
    \<Rightarrow> (addr option \<times> HandleTable) option" where
  "HT_Remove M t k h =
     do {
       ptr \<leftarrow> FindPointer M t k h;
       let result = slot t ptr;
       let c = ht_list t ! fst ptr;
       if result \<noteq> None then
         Some (result, t\<lparr>ht_list := (ht_list t)[fst ptr := take (snd ptr) c @ drop (Suc (snd ptr)) c],
                          ht_elems := ht_elems t - 1\<rparr>)
       else Some (result, t)
     }"

subsection \<open>LRUCache: one shard\<close>

record LRUCache =
  capacity :: size_t
  usage :: size_t
  lru :: "addr list"
  in_use :: "addr list"
  table :: HandleTable
  mem :: memory
  brk :: addr
  deleted :: "(addr \<times> nat \<times> Slice \<times> nat) list"

datatype list_head = LRU | IN_USE

definition LRU_Remove :: "addr \<Rightarrow> LRUCache \<Rightarrow> LRUCache option" where
  "LRU_Remove e s =
     (if e \<in> set (lru s) then Some (s\<lparr>lru := remove1 e (lru s)\<rparr>)
      else if e \<in> set (in_use s) then Some (s\<lparr>in_use := remove1 e (in_use s)\<rparr>)
      else None)"

definition LRU_Append :: "list_head \<Rightarrow> addr \<Rightarrow> LRUCache \<Rightarrow> LRUCache" where
  "LRU_Append l e s =
     (case l of
        LRU \<Rightarrow> s\<lparr>lru := lru s @ [e]\<rparr>
      | IN_USE \<Rightarrow> s\<lparr>in_use := in_use s @ [e]\<rparr>)"

definition Ref :: "addr \<Rightarrow> LRUCache \<Rightarrow> LRUCache option" where
  "Ref p s =
     do {
       e \<leftarrow> mem s p;
       s1 \<leftarrow> (if refs e = 1 \<and> in_cache e
              then map_option (LRU_Append IN_USE p) (LRU_Remove p s)
              else Some s);
       Some (s1\<lparr>mem := (mem s1)(p \<mapsto> e\<lparr>refs := refs e + 1\<rparr>)\<rparr>)
     }"

definition Unref :: "addr \<Rightarrow> LRUCache \<Rightarrow> LRUCache option" where
  "Unref p s =
     do {
       e0 \<leftarrow> mem s p;
       _ \<leftarrow> assert (refs e0 > 0);
       let e = e0\<lparr>refs := refs e0 - 1\<rparr>;
       if refs e = 0 then
         do {
           _ \<leftarrow> assert (\<not> in_cache e);
           Some (s\<lparr>deleted := deleted s @ [(p, deleter e, key_data e, val e)],
                   mem := (mem s)(p := None)\<rparr>)
         }
       else if in_cache e \<and> refs e = 1 then
         map_option (LRU_Append LRU p) (LRU_Remove p (s\<lparr>mem := (mem s)(p \<mapsto> e)\<rparr>))
       else Some (s\<lparr>mem := (mem s)(p \<mapsto> e)\<rparr>)
     }"

definition FinishErase :: "addr option \<Rightarrow> LRUCache \<Rightarrow> (bool \<times> LRUCache) option" where
  "FinishErase eo s =
     (case eo of
        None \<Rightarrow> Some (False, s)
      | Some p \<Rightarrow>
          do {
            e \<leftarrow> mem s p;
            _ \<leftarrow> assert (in_cache e);
            s1 \<leftarrow> LRU_Remove p s;
            let s2 = s1\<lparr>mem := (mem s1)(p \<mapsto> e\<lparr>in_cache := False\<rparr>),
                        usage := usage s1 - charge e\<rparr>;
            s3 \<leftarrow> Unref p s2;
            Some (True, s3)
          })"

definition Lookup :: "Slice \<Rightarrow> uint32_t \<Rightarrow> LRUCache \<Rightarrow> (addr option \<times> LRUCache) option" where
  "Lookup k h s =
     do {
       e \<leftarrow> HT_Lookup (mem s) (table s) k h;
       case e of
         None \<Rightarrow> Some (None, s)
       | Some p \<Rightarrow> map_option (Pair (Some p)) (Ref p s)
     }"

definition Release :: "addr \<Rightarrow> LRUCache \<Rightarrow> LRUCache option" where
  "Release handle s = Unref handle s"

text \<open>
  The body shared by the while loops of \<open>Insert\<close> and \<open>Prune\<close>: take \<open>lru_.next\<close>,
  remove it from the table by its key and hash, and finish the erase.  Both loops enter
  the body only when the LRU list is not empty.
\<close>

definition evict_oldest :: "LRUCache \<Rightarrow> LRUCache option" where
  "evict_oldest s =
     (case lru s of
        [] \<Rightarrow> None
      | old # _ \<Rightarrow>
          do {
            e \<leftarrow> mem s old;
            _ \<leftarrow> assert (refs e = 1);
            (r, t) \<leftarrow> HT_Remove (mem s) (table s) (key_data e) (hash e);
            (erased, s') \<leftarrow> FinishErase r (s\<lparr>table := t\<rparr>);
            _ \<leftarrow> assert erased;
            Some s'
          })"

definition table_size :: "LRUCache \<Rightarrow> nat" where
  "table_size s = length (concat (ht_list (table s)))"


lemma LRU_Remove_table: "LRU_Remove p s = Some s' \<Longrightarrow> table s' = table s"
  by (auto simp: LRU_Remove_def split: if_splits)

lemma Unref_table: "Unref p s = Some s' \<Longrightarrow> table s' = table s"
  by (auto simp: Unref_def LRU_Append_def Let_def assert_def
      split: bind_splits if_splits dest!: LRU_Remove_table)

lemma FinishErase_table: "FinishErase r s = Some (b, s') \<Longrightarrow> table s' = table s"
  by (auto simp: FinishErase_def Let_def assert_def
      split: option.splits bind_splits if_splits dest!: LRU_Remove_table Unref_table)

lemma FinishErase_erased: "FinishErase r s = Some (b, s') \<Longrightarrow> b = (r \<noteq> None)"
  by (auto simp: FinishErase_def split: option.splits bind_splits)

lemma length_concat_update:
  "b < length xs \<Longrightarrow> length (concat (xs[b := y])) + length (xs ! b) = length (concat xs) + length y"
proof (induction xs arbitrary: b)
  case Nil
  then show ?case by simp
next
  case (Cons x xs)
  then show ?case by (cases b) auto
qed

lemma FindPointer_bucket:
  "FindPointer M t k h = Some ptr \<Longrightarrow> fst ptr < length (ht_list t)"
  by (auto simp: FindPointer_def Let_def split: if_splits)

lemma HT_Remove_size:
  assumes "HT_Remove M t k h = Some (Some r, t')"
  shows "length (concat (ht_list t')) < length (concat (ht_list t))"
proof -
  from assms obtain ptr where fp: "FindPointer M t k h = Some ptr"
    by (auto simp: HT_Remove_def split: bind_splits)
  let ?c = "ht_list t ! fst ptr"
  from assms fp have i: "snd ptr < length ?c"
    and t': "ht_list t' = (ht_list t)[fst ptr := take (snd ptr) ?c @ drop (Suc (snd ptr)) ?c]"
    by (auto simp: HT_Remove_def slot_def Let_def split: if_splits)
  have b: "fst ptr < length (ht_list t)" using fp by (rule FindPointer_bucket)
  from length_concat_update [OF b, of "take (snd ptr) ?c @ drop (Suc (snd ptr)) ?c"] i t'
  show ?thesis by simp
qed

lemma evict_oldest_size:
  assumes "evict_oldest s = Some s'"
  shows "table_size s' < table_size s"
proof -
  from assms obtain e :: LRUHandle and r t where
    rm: "HT_Remove (mem s) (table s) (key_data e) (hash e) = Some (r, t)" and
    fe: "FinishErase r (s\<lparr>table := t\<rparr>) = Some (True, s')"
    by (auto simp: evict_oldest_def assert_def split: list.splits bind_splits if_splits)
  from fe obtain q where "r = Some q"
    by (auto dest: FinishErase_erased)
  with rm have "length (concat (ht_list t)) < length (concat (ht_list (table s)))"
    by (auto dest: HT_Remove_size)
  moreover from fe have "table s' = t"
    by (auto dest: FinishErase_table)
  ultimately show ?thesis by (simp add: table_size_def)
qed

text \<open>
  The while loop of \<open>Insert\<close>.  Every turn that does not stop the run takes one entry
  out of the hash table, so the loop terminates.
\<close>

function Insert_loop :: "LRUCache \<Rightarrow> LRUCache option" where
  "Insert_loop s =
     (if usage s > capacity s \<and> lru s \<noteq> [] then
        (case evict_oldest s of None \<Rightarrow> None | Some s' \<Rightarrow> Insert_loop s')
      else Some s)"
  by pat_completeness auto
termination
  by (relation "measure table_size") (auto dest: evict_oldest_size)

definition Insert :: "Slice \<Rightarrow> uint32_t \<Rightarrow> nat \<Rightarrow> size_t \<Rightarrow> nat \<Rightarrow> LRUCache
    \<Rightarrow> (addr \<times> LRUCache) option" where
  "Insert k h v c d s =
     do {
       let p = brk s;
       let e = \<lparr>val = v, deleter = d, charge = c, in_cache = False, refs = 1,
                hash = h, key_data = k\<rparr>;
       let s0 = s\<lparr>mem := (mem s)(p \<mapsto> e), brk := Suc p\<rparr>;
       s1 \<leftarrow>
         (if capacity s0 > 0 then
            do {
              let e' = e\<lparr>refs := refs e + 1, in_cache := True\<rparr>;
              let s' = LRU_Append IN_USE p (s0\<lparr>mem := (mem s0)(p \<mapsto> e')\<rparr>);
              let s'' = s'\<lparr>usage := usage s' + c\<rparr>;
              (old, t) \<leftarrow> HT_Insert (mem s'') (table s'') p;
              (_, s3) \<leftarrow> FinishErase old (s''\<lparr>table := t\<rparr>);
              Some s3
            }
          else Some s0);
       s2 \<leftarrow> Insert_loop s1;
       Some (p, s2)
     }"

definition Erase :: "Slice \<Rightarrow> uint32_t \<Rightarrow> LRUCache \<Rightarrow> LRUCache option" where
  "Erase k h s =
     do {
       (r, t) \<leftarrow> HT_Remove (mem s) (table s) k h;
       (_, s') \<leftarrow> FinishErase r (s\<lparr>table := t\<rparr>);
       Some s'
     }"

function Prune :: "LRUCache \<Rightarrow> LRUCache option" where
  "Prune s =
     (if lru s \<noteq> [] then
        (case evict_oldest s of None \<Rightarrow> None | Some s' \<Rightarrow> Prune s')
      else Some s)"
  by pat_completeness auto
termination
  by (relation "measure table_size") (auto dest: evict_oldest_size)

declare Insert_loop.simps [simp del] Prune.simps [simp del]

definition TotalCharge :: "LRUCache \<Rightarrow> size_t" where
  "TotalCharge s = usage s"

text \<open>\<open>Value(handle)\<close> reads \<open>handle->value\<close>.\<close>

definition Value :: "addr \<Rightarrow> LRUCache \<Rightarrow> nat option" where
  "Value handle s = map_option val (mem s handle)"

text \<open>
  The constructor \<open>LRUCache()\<close> followed by \<open>SetCapacity(c)\<close>, as
  \<open>ShardedLRUCache\<close> sets up each of its shards, on an empty memory.
\<close>

definition NewLRUCache :: "size_t \<Rightarrow> LRUCache option" where
  "NewLRUCache c =
     map_option
       (\<lambda>t. \<lparr>capacity = c, usage = 0, lru = [], in_use = [], table = t,
              mem = (\<lambda>_. None), brk = 0, deleted = []\<rparr>)
       HandleTable_new"

subsection \<open>Operation sequences\<close>

datatype operation =
    OpInsert Slice uint32_t nat size_t nat
  | OpLookup Slice uint32_t
  | OpRelease addr
  | OpErase Slice uint32_t
  | OpPrune

fun apply_op :: "operation \<Rightarrow> LRUCache \<Rightarrow> LRUCache option" where
  "apply_op (OpInsert k h v c d) s = map_option snd (Insert k h v c d s)"
| "apply_op (OpLookup k h) s = map_option snd (Lookup k h s)"
| "apply_op (OpRelease p) s = Release p s"
| "apply_op (OpErase k h) s = Erase k h s"
| "apply_op OpPrune s = Prune s"

fun run :: "operation list \<Rightarrow> LRUCache \<Rightarrow> LRUCache option" where
  "run [] s = Some s"
| "run (x # xs) s = (case apply_op x s of None \<Rightarrow> None | Some s' \<Rightarrow> run xs s')"

text \<open>
  A shard state is reachable when some sequence of operations, none of which stops,
  leads to it from a new shard of capacity \<open>c\<close>.
\<close>

inductive reachable :: "size_t \<Rightarrow> LRUCache \<Rightarrow> bool" for c :: size_t where
  reachable_new: "NewLRUCache c = Some s \<Longrightarrow> reachable c s"
| reachable_step: "reachable c s \<Longrightarrow> apply_op x s = Some s' \<Longrightarrow> reachable c s'"


subsection \<open>Evaluating a new shard\<close>

lemma HandleTable_new_eq:
  "HandleTable_new = Some \<lparr>ht_length = 4, ht_elems = 0, ht_list = [[], [], [], []]\<rparr>"
proof -
  have "Resize_length 4 0 = Some 4"
    by (subst Resize_length.simps) simp
  moreover have "replicate (4 :: nat) ([] :: addr list) = [[], [], [], []]"
    by (simp add: eval_nat_numeral)
  ultimately show ?thesis
    by (simp add: HandleTable_new_def Resize_def assert_def)
qed

lemma NewLRUCache_eq:
  "NewLRUCache c =
     Some \<lparr>capacity = c, usage = 0, lru = [], in_use = [],
            table = \<lparr>ht_length = 4, ht_elems = 0, ht_list = [[], [], [], []]\<rparr>,
            mem = (\<lambda>_. None), brk = 0, deleted = []\<rparr>"
  by (simp add: NewLRUCache_def HandleTable_new_eq)

lemmas eval_defs = Insert_def LRU_Append_def HT_Insert_def FindPointer_def slot_def
  FinishErase_def Let_def assert_def LRU_Remove_def Unref_def Ref_def HT_Remove_def
  HT_Lookup_def Lookup_def Release_def Erase_def evict_oldest_def

text \<open>Example states: a new shard of capacity 10, and the shard after two inserts
  whose handles are both still held.\<close>

definition shard10 :: LRUCache where
  "shard10 =
     \<lparr>capacity = 10, usage = 0, lru = [], in_use = [],
      table = \<lparr>ht_length = 4, ht_elems = 0, ht_list = [[], [], [], []]\<rparr>,
      mem = (\<lambda>_. None), brk = 0, deleted = []\<rparr>"

definition pinned_one :: LRUCache where
  "pinned_one =
     \<lparr>capacity = 10, usage = 6, lru = [], in_use = [0],
      table = \<lparr>ht_length = 4, ht_elems = 1, ht_list = [[], [0], [], []]\<rparr>,
      mem = [0 \<mapsto> \<lparr>val = 100, deleter = 0, charge = 6, in_cache = True, refs = 2,
                      hash = 1, key_data = ''a''\<rparr>],
      brk = 1, deleted = []\<rparr>"

definition pinned_pair :: LRUCache where
  "pinned_pair =
     \<lparr>capacity = 10, usage = 12, lru = [], in_use = [0, 1],
      table = \<lparr>ht_length = 4, ht_elems = 2, ht_list = [[], [0], [1], []]\<rparr>,
      mem = [0 \<mapsto> \<lparr>val = 100, deleter = 0, charge = 6, in_cache = True, refs = 2,
                      hash = 1, key_data = ''a''\<rparr>,
             1 \<mapsto> \<lparr>val = 200, deleter = 0, charge = 6, in_cache = True, refs = 2,
                      hash = 2, key_data = ''b''\<rparr>],
      brk = 2, deleted = []\<rparr>"

lemma NewLRUCache_10: "NewLRUCache 10 = Some shard10"
  by (simp add: NewLRUCache_eq shard10_def)

lemma Insert_a: "Insert ''a'' 1 100 6 0 shard10 = Some (0, pinned_one)"
  by (simp add: eval_defs shard10_def pinned_one_def Insert_loop.simps)

lemma Insert_b: "Insert ''b'' 2 200 6 0 pinned_one = Some (1, pinned_pair)"
  by (simp add: eval_defs pinned_one_def pinned_pair_def Insert_loop.simps)

section \<open>A lookup that misses\<close>

text \<open>
  Claim C10.  A call of \<open>Lookup\<close> that returns \<open>nullptr\<close> returns the shard exactly as it
  was: no reference count, list, table slot or counter has changed.
\<close>

theorem Lookup_miss_unchanged:
  "Lookup k h s = Some (None, s') \<Longrightarrow> s' = s"
  by (auto simp: Lookup_def split: bind_splits option.splits)

theorem Lookup_miss_unchanged_witness:
  "Lookup ''b'' 2 pinned_one = Some (None, pinned_one)"
proof -
  obtain s' where l: "Lookup ''b'' 2 pinned_one = Some (None, s')"
    by (simp add: Lookup_def HT_Lookup_def FindPointer_def slot_def pinned_one_def)
  from Lookup_miss_unchanged [OF l] l show ?thesis by simp
qed

section \<open>The capacity bound after an insert\<close>

lemma Insert_loop_exit:
  "Insert_loop s = Some s' \<Longrightarrow> usage s' \<le> capacity s' \<or> lru s' = []"
proof (induction s rule: Insert_loop.induct)
  case (1 s)
  show ?case
  proof (cases "usage s > capacity s \<and> lru s \<noteq> []")
    case True
    with "1.prems" obtain s1 where "evict_oldest s = Some s1" "Insert_loop s1 = Some s'"
      by (subst (asm) Insert_loop.simps) (auto split: option.splits)
    with True "1.IH" show ?thesis by blast
  next
    case False
    with "1.prems" have "s' = s"
      by (subst (asm) Insert_loop.simps) auto
    with False show ?thesis by auto
  qed
qed

text \<open>
  Claim C2, as stated: after \<open>Insert\<close> returns, \<open>usage \<le> capacity\<close> unless the new entry
  alone exceeds the capacity and the LRU list is empty.  It fails when entries that are
  still held fill the shard: with capacity 10, two inserts of charge 6 whose handles are
  both held leave \<open>usage = 12\<close>, although the new entry's charge 6 is below the capacity.
\<close>

theorem Insert_usage_claim_counterexample:
  "Option.bind (map_option snd (Option.bind (NewLRUCache 10) (Insert ''a'' 1 100 6 0)))
      (Insert ''b'' 2 200 6 0) = Some (1, pinned_pair) \<and>
   \<not> (usage pinned_pair \<le> capacity pinned_pair \<or>
      (capacity pinned_pair < 6 \<and> lru pinned_pair = []))"
  by (simp add: NewLRUCache_10 Insert_a Insert_b) (simp add: pinned_pair_def)

text \<open>
  Claim C2, amended: after \<open>Insert\<close> returns, \<open>usage \<le> capacity\<close> or the LRU list is
  empty (every entry left in the shard is held by a client).
\<close>

theorem Insert_usage_bound:
  "Insert k h v c d s = Some (p, s') \<Longrightarrow> usage s' \<le> capacity s' \<or> lru s' = []"
proof -
  assume "Insert k h v c d s = Some (p, s')"
  then obtain s1 where "Insert_loop s1 = Some s'"
    by (auto simp: Insert_def Let_def split: bind_splits)
  then show ?thesis by (rule Insert_loop_exit)
qed

theorem Insert_usage_bound_witness:
  "Insert ''b'' 2 200 6 0 pinned_one = Some (1, pinned_pair) \<and>
   (usage pinned_pair \<le> capacity pinned_pair \<or> lru pinned_pair = [])"
  using Insert_usage_bound [OF Insert_b] Insert_b by simp


section \<open>Well-formed hash tables\<close>

text \<open>
  \<open>members\<close> are the entries linked into the table, \<open>matches\<close> says that the record
  at an address has a given key and hash, and \<open>table_ok\<close> is the representation
  invariant of the table: the bucket array has \<open>length_\<close> buckets, no entry is linked
  twice, every entry sits in the bucket of its hash, and no two entries share key and hash.
\<close>
definition members :: "HandleTable \<Rightarrow> addr set" where
  "members t = set (concat (ht_list t))"

definition matches :: "memory \<Rightarrow> Slice \<Rightarrow> uint32_t \<Rightarrow> addr \<Rightarrow> bool" where
  "matches M k h p = (case M p of None \<Rightarrow> False | Some e \<Rightarrow> hash e = h \<and> key_data e = k)"

definition table_ok :: "memory \<Rightarrow> HandleTable \<Rightarrow> bool" where
  "table_ok M t \<longleftrightarrow>
     ht_length t \<noteq> 0 \<and> length (ht_list t) = unat (ht_length t) \<and>
     distinct (concat (ht_list t)) \<and>
     (\<forall>i < length (ht_list t). \<forall>p \<in> set (ht_list t ! i).
        \<exists>e. M p = Some e \<and> unat (hash e AND (ht_length t - 1)) = i) \<and>
     (\<forall>p \<in> members t. \<forall>q \<in> members t. \<forall>e f.
        M p = Some e \<longrightarrow> M q = Some f \<longrightarrow> hash e = hash f \<longrightarrow> key_data e = key_data f
        \<longrightarrow> p = q)"

lemma bucket_lt: "n \<noteq> 0 \<Longrightarrow> unat (h AND (n - 1)) < unat (n :: uint32_t)"
proof -
  assume n: "n \<noteq> 0"
  have "h AND (n - 1) \<le> n - 1" by (rule word_and_le1)
  moreover from n have "n - 1 < n"
    by (simp add: word_less_nat_alt unat_minus_one unat_gt_0)
  ultimately show ?thesis by (simp add: word_less_nat_alt word_le_nat_alt)
qed

lemma walk_takeWhile:
  "\<forall>p \<in> set c. M p \<noteq> None \<Longrightarrow>
   walk M k h c = Some (length (takeWhile (\<lambda>p. \<not> matches M k h p) c))"
  by (induction c) (auto simp: matches_def)

lemma concat_split:
  "b < length xs \<Longrightarrow> concat xs = concat (take b xs) @ xs ! b @ concat (drop (Suc b) xs)"
  by (metis concat.simps(2) concat_append id_take_nth_drop)

lemma concat_update:
  "b < length xs \<Longrightarrow> concat (xs[b := c]) = concat (take b xs) @ c @ concat (drop (Suc b) xs)"
  by (simp add: upd_conv_take_nth_drop)

lemma nth_subset_members: "i < length (ht_list t) \<Longrightarrow> set (ht_list t ! i) \<subseteq> members t"
  by (auto simp: members_def intro!: bexI [of _ "ht_list t ! i"])

lemma members_iff:
  "p \<in> members t \<longleftrightarrow> (\<exists>i < length (ht_list t). p \<in> set (ht_list t ! i))"
  by (simp add: members_def) (metis in_set_conv_nth)

lemma table_ok_place:
  "table_ok M t \<Longrightarrow> i < length (ht_list t) \<Longrightarrow> p \<in> set (ht_list t ! i) \<Longrightarrow>
   \<exists>e. M p = Some e \<and> unat (hash e AND (ht_length t - 1)) = i"
  unfolding table_ok_def by blast

lemma table_ok_alloc:
  assumes "table_ok M t" and "p \<in> members t"
  shows "M p \<noteq> None"
proof -
  from assms(2) obtain i where "i < length (ht_list t)" "p \<in> set (ht_list t ! i)"
    by (auto simp: members_iff)
  with assms(1) show ?thesis by (auto dest: table_ok_place)
qed

lemma table_ok_bucket:
  "table_ok M t \<Longrightarrow> unat (h AND (ht_length t - 1)) < length (ht_list t)"
  by (simp add: table_ok_def bucket_lt)

lemma FindPointer_ok:
  assumes "table_ok M t"
  shows "FindPointer M t k h =
    Some (unat (h AND (ht_length t - 1)),
          length (takeWhile (\<lambda>p. \<not> matches M k h p)
                   (ht_list t ! unat (h AND (ht_length t - 1)))))"
proof -
  let ?b = "unat (h AND (ht_length t - 1))"
  have b: "?b < length (ht_list t)" using assms by (rule table_ok_bucket)
  then have "\<forall>p \<in> set (ht_list t ! ?b). M p \<noteq> None"
    using assms nth_subset_members [OF b] by (auto dest: table_ok_alloc)
  then show ?thesis using b by (simp add: FindPointer_def walk_takeWhile Let_def)
qed

text \<open>What the table holds for a key: the member with that key and hash, if any.\<close>

lemma matches_bucket:
  assumes ok: "table_ok M t" and p: "p \<in> members t" and m: "matches M k h p"
  shows "p \<in> set (ht_list t ! unat (h AND (ht_length t - 1)))"
proof -
  from p obtain i where i: "i < length (ht_list t)" "p \<in> set (ht_list t ! i)"
    by (auto simp: members_iff)
  with ok obtain e where "M p = Some e" "unat (hash e AND (ht_length t - 1)) = i"
    by (blast dest: table_ok_place)
  with m i show ?thesis by (auto simp: matches_def)
qed

lemma HT_Lookup_ok:
  assumes ok: "table_ok M t"
  shows "\<exists>r. HT_Lookup M t k h = Some r \<and>
    (case r of None \<Rightarrow> \<forall>p \<in> members t. \<not> matches M k h p
     | Some p \<Rightarrow> p \<in> members t \<and> matches M k h p)"
proof -
  let ?b = "unat (h AND (ht_length t - 1))"
  let ?c = "ht_list t ! ?b"
  let ?i = "length (takeWhile (\<lambda>p. \<not> matches M k h p) ?c)"
  have b: "?b < length (ht_list t)" using ok by (rule table_ok_bucket)
  have l: "HT_Lookup M t k h = Some (slot t (?b, ?i))"
    by (simp add: HT_Lookup_def FindPointer_ok [OF ok])
  show ?thesis
  proof (cases "?i < length ?c")
    case True
    then have "matches M k h (?c ! ?i)"
      using nth_length_takeWhile [of "\<lambda>p. \<not> matches M k h p" ?c] by simp
    moreover have "?c ! ?i \<in> members t"
      using True nth_subset_members [OF b] by (auto dest: nth_mem)
    ultimately show ?thesis using l True by (simp add: slot_def Let_def)
  next
    case False
    then have "takeWhile (\<lambda>p. \<not> matches M k h p) ?c = ?c"
      by (metis (no_types, lifting) not_less takeWhile_eq_take take_all)
    then have "\<forall>p \<in> set ?c. \<not> matches M k h p"
      by simp
    then have "\<forall>p \<in> members t. \<not> matches M k h p"
      using matches_bucket [OF ok] by blast
    then show ?thesis using l False by (simp add: slot_def Let_def)
  qed
qed

lemma matches_unique:
  "table_ok M t \<Longrightarrow> p \<in> members t \<Longrightarrow> q \<in> members t \<Longrightarrow> matches M k h p
   \<Longrightarrow> matches M k h q \<Longrightarrow> p = q"
  unfolding table_ok_def matches_def by (auto split: option.splits)

lemma HT_Lookup_Some_iff:
  assumes ok: "table_ok M t"
  shows "HT_Lookup M t k h = Some (Some p) \<longleftrightarrow> p \<in> members t \<and> matches M k h p"
proof -
  from HT_Lookup_ok [OF ok, of k h] obtain r where
    r: "HT_Lookup M t k h = Some r" and
    c: "case r of None \<Rightarrow> \<forall>p \<in> members t. \<not> matches M k h p
        | Some p \<Rightarrow> p \<in> members t \<and> matches M k h p"
    by blast
  show ?thesis
  proof (cases r)
    case None
    with r c show ?thesis by auto
  next
    case (Some q)
    with r c show ?thesis using matches_unique [OF ok] by auto
  qed
qed

lemma HT_Lookup_None_iff:
  assumes ok: "table_ok M t"
  shows "HT_Lookup M t k h = Some None \<longleftrightarrow> (\<forall>p \<in> members t. \<not> matches M k h p)"
proof -
  from HT_Lookup_ok [OF ok, of k h] obtain r where
    r: "HT_Lookup M t k h = Some r" and
    c: "case r of None \<Rightarrow> \<forall>p \<in> members t. \<not> matches M k h p
        | Some p \<Rightarrow> p \<in> members t \<and> matches M k h p"
    by blast
  then show ?thesis by (cases r) auto
qed


lemma table_ok_elems [simp]: "table_ok M (t\<lparr>ht_elems := n\<rparr>) = table_ok M t"
  by (simp add: table_ok_def members_def)

lemma members_elems [simp]: "members (t\<lparr>ht_elems := n\<rparr>) = members t"
  by (simp add: members_def)

lemma table_ok_unique:
  "table_ok M t \<Longrightarrow> p \<in> members t \<Longrightarrow> q \<in> members t \<Longrightarrow> M p = Some e \<Longrightarrow> M q = Some f
   \<Longrightarrow> hash e = hash f \<Longrightarrow> key_data e = key_data f \<Longrightarrow> p = q"
  unfolding table_ok_def by blast

lemma table_ok_distinct: "table_ok M t \<Longrightarrow> distinct (concat (ht_list t))"
  by (simp add: table_ok_def)

text \<open>Replacing the chain of one bucket.\<close>

lemma bucket_update:
  assumes ok: "table_ok M t" and b: "b < length (ht_list t)" and d: "distinct c'"
    and old: "\<forall>p \<in> set c'. p \<in> set (ht_list t ! b) \<or>
               (p \<notin> members t \<and> (\<exists>e. M p = Some e \<and> unat (hash e AND (ht_length t - 1)) = b))"
    and new: "\<forall>p \<in> set c' - members t. \<forall>q \<in> (members t - set (ht_list t ! b)) \<union> set c'.
               \<forall>e f. M p = Some e \<longrightarrow> M q = Some f \<longrightarrow> hash e = hash f \<longrightarrow>
                 key_data e = key_data f \<longrightarrow> p = q"
  shows "table_ok M (t\<lparr>ht_list := (ht_list t)[b := c']\<rparr>)" (is "table_ok M ?t'")
    and "members (t\<lparr>ht_list := (ht_list t)[b := c']\<rparr>) = (members t - set (ht_list t ! b)) \<union> set c'"
proof -
  let ?xs = "ht_list t"
  let ?A = "concat (take b ?xs)" and ?B = "concat (drop (Suc b) ?xs)"
  have split: "concat ?xs = ?A @ ?xs ! b @ ?B" using b by (rule concat_split)
  have upd: "concat (?xs[b := c']) = ?A @ c' @ ?B" using b by (rule concat_update)
  have dist: "distinct (?A @ ?xs ! b @ ?B)"
    using table_ok_distinct [OF ok] split by simp
  have mem: "members t = set ?A \<union> set (?xs ! b) \<union> set ?B"
    using split by (simp add: members_def Un_assoc)
  have AB: "set ?A \<union> set ?B = members t - set (?xs ! b)"
    using dist mem by auto
  show m': "members ?t' = (members t - set (?xs ! b)) \<union> set c'"
    using upd AB by (auto simp: members_def)
  have d': "distinct (concat (ht_list ?t'))"
  proof -
    have "set c' \<inter> (set ?A \<union> set ?B) = {}"
      using old AB by auto
    with dist d upd show ?thesis by auto
  qed
  have place: "\<forall>i < length (ht_list ?t'). \<forall>p \<in> set (ht_list ?t' ! i).
        \<exists>e. M p = Some e \<and> unat (hash e AND (ht_length ?t' - 1)) = i"
  proof (intro allI impI ballI)
    fix i p assume i: "i < length (ht_list ?t')" and p: "p \<in> set (ht_list ?t' ! i)"
    show "\<exists>e. M p = Some e \<and> unat (hash e AND (ht_length ?t' - 1)) = i"
    proof (cases "i = b")
      case True
      with p b have "p \<in> set c'" by simp
      with old True b table_ok_place [OF ok b] show ?thesis by auto
    next
      case False
      with p i have "p \<in> set (?xs ! i)" "i < length ?xs" by simp_all
      with table_ok_place [OF ok] show ?thesis by auto
    qed
  qed
  have uniq: "\<forall>p \<in> members ?t'. \<forall>q \<in> members ?t'. \<forall>e f.
        M p = Some e \<longrightarrow> M q = Some f \<longrightarrow> hash e = hash f \<longrightarrow> key_data e = key_data f
        \<longrightarrow> p = q"
  proof (intro ballI allI impI)
    fix p q e f
    assume p: "p \<in> members ?t'" and q: "q \<in> members ?t'"
      and e: "M p = Some e" "M q = Some f" "hash e = hash f" "key_data e = key_data f"
    show "p = q"
    proof (cases "p \<in> members t")
      case pm: True
      show ?thesis
      proof (cases "q \<in> members t")
        case True
        with pm e ok show ?thesis by (blast intro: table_ok_unique)
      next
        case False
        with q m' have "q \<in> set c' - members t" by auto
        moreover from p m' have "p \<in> (members t - set (?xs ! b)) \<union> set c'" by simp
        ultimately have "q = p" using new e by (metis (no_types, lifting))
        then show ?thesis by simp
      qed
    next
      case False
      with p m' have "p \<in> set c' - members t" by auto
      moreover from q m' have "q \<in> (members t - set (?xs ! b)) \<union> set c'" by simp
      ultimately show ?thesis using new e by (metis (no_types, lifting))
    qed
  qed
  from ok have "ht_length t \<noteq> 0" "length ?xs = unat (ht_length t)"
    by (simp_all add: table_ok_def)
  with d' place uniq show "table_ok M ?t'"
    unfolding table_ok_def by simp
qed


lemma chain_distinct:
  assumes "table_ok M t" and b: "b < length (ht_list t)"
  shows "distinct (ht_list t ! b)"
  using table_ok_distinct [OF assms(1)] concat_split [OF b] by simp

lemma remove_nth_set:
  assumes "distinct c" and "i < length c"
  shows "distinct (take i c @ drop (Suc i) c)"
    and "set (take i c @ drop (Suc i) c) = set c - {c ! i}"
proof -
  have c: "c = take i c @ c ! i # drop (Suc i) c"
    using assms(2) by (rule id_take_nth_drop)
  with assms(1) have d: "distinct (take i c @ c ! i # drop (Suc i) c)" by simp
  then show "distinct (take i c @ drop (Suc i) c)" by simp
  have "set c = set (take i c @ c ! i # drop (Suc i) c)" using c by simp
  with d show "set (take i c @ drop (Suc i) c) = set c - {c ! i}" by auto
qed

lemma HT_Remove_ok:
  assumes ok: "table_ok M t"
  shows "\<exists>r t'. HT_Remove M t k h = Some (r, t') \<and> HT_Lookup M t k h = Some r \<and>
     table_ok M t' \<and> members t' = members t - set_option r \<and> (r = None \<longrightarrow> t' = t)"
proof -
  define b where "b = unat (h AND (ht_length t - 1))"
  define c where "c = ht_list t ! b"
  define i where "i = length (takeWhile (\<lambda>p. \<not> matches M k h p) c)"
  have b: "b < length (ht_list t)" unfolding b_def using ok by (rule table_ok_bucket)
  have fp: "FindPointer M t k h = Some (b, i)"
    unfolding b_def c_def i_def by (rule FindPointer_ok [OF ok])
  have l: "HT_Lookup M t k h = Some (slot t (b, i))"
    by (simp add: HT_Lookup_def fp)
  show ?thesis
  proof (cases "i < length c")
    case True
    define c' where "c' = take i c @ drop (Suc i) c"
    define t1 where "t1 = t\<lparr>ht_list := (ht_list t)[b := c']\<rparr>"
    have sl: "slot t (b, i) = Some (c ! i)"
      using True by (simp add: slot_def Let_def c_def)
    have rm: "HT_Remove M t k h = Some (Some (c ! i), t1\<lparr>ht_elems := ht_elems t - 1\<rparr>)"
      using True by (simp add: HT_Remove_def fp slot_def Let_def c_def c'_def t1_def)
    have dc: "distinct c" unfolding c_def using ok b by (rule chain_distinct)
    have d': "distinct c'" and s': "set c' = set c - {c ! i}"
      unfolding c'_def using remove_nth_set [OF dc True] by blast+
    have sub: "set c \<subseteq> members t"
      unfolding c_def using b by (rule nth_subset_members)
    have old: "\<forall>p \<in> set c'. p \<in> set (ht_list t ! b) \<or>
               (p \<notin> members t \<and> (\<exists>e. M p = Some e \<and> unat (hash e AND (ht_length t - 1)) = b))"
      using s' by (simp add: c_def)
    have new: "\<forall>p \<in> set c' - members t. \<forall>q \<in> (members t - set (ht_list t ! b)) \<union> set c'.
               \<forall>e f. M p = Some e \<longrightarrow> M q = Some f \<longrightarrow> hash e = hash f \<longrightarrow>
                 key_data e = key_data f \<longrightarrow> p = q"
      using s' sub by blast
    have ok1: "table_ok M t1" unfolding t1_def
      using ok b d' old new by (rule bucket_update(1))
    have "members t1 = (members t - set (ht_list t ! b)) \<union> set c'" unfolding t1_def
      using ok b d' old new by (rule bucket_update(2))
    then have "members t1 = (members t - set c) \<union> set c'" by (simp add: c_def)
    moreover have "c ! i \<in> set c" using True by simp
    ultimately have "members t1 = members t - {c ! i}"
      using s' sub by auto
    with ok1 rm l sl show ?thesis by simp
  next
    case False
    then have "slot t (b, i) = None" by (simp add: slot_def Let_def c_def)
    moreover from False have "HT_Remove M t k h = Some (None, t)"
      by (simp add: HT_Remove_def fp slot_def Let_def c_def)
    ultimately show ?thesis using l ok by simp
  qed
qed


lemma Resize_length_zero:
  assumes "Resize_length m e = Some n"
  shows "n = 0 \<longrightarrow> m = 0 \<and> e = 0"
proof (rule Resize_length.raw_induct [OF _ assms])
  fix f :: "uint32_t \<Rightarrow> uint32_t \<Rightarrow> uint32_t option" and m e n :: uint32_t
  assume IH: "\<And>m e n. f m e = Some n \<Longrightarrow> n = 0 \<longrightarrow> m = 0 \<and> e = 0"
    and step: "(if m < e then f (m * 2) e else Some m) = Some n"
  show "n = 0 \<longrightarrow> m = 0 \<and> e = 0"
  proof (cases "m < e")
    case True
    with step have "f (m * 2) e = Some n" by simp
    from IH [OF this] True show ?thesis by auto
  next
    case False
    with step have "n = m" by simp
    with False show ?thesis using word_neq_0_conv [of e] by auto
  qed
qed

lemma Resize_length_ge:
  assumes "Resize_length m e = Some n"
  shows "e \<le> n"
proof (rule Resize_length.raw_induct [OF _ assms])
  fix f :: "uint32_t \<Rightarrow> uint32_t \<Rightarrow> uint32_t option" and m e n :: uint32_t
  assume IH: "\<And>m e n. f m e = Some n \<Longrightarrow> e \<le> n"
    and step: "(if m < e then f (m * 2) e else Some m) = Some n"
  show "e \<le> n"
  proof (cases "m < e")
    case True
    with step have "f (m * 2) e = Some n" by simp
    then show ?thesis by (rule IH)
  next
    case False
    with step show ?thesis by auto
  qed
qed

lemma distinct_insert_mid:
  "distinct (A @ (p # c) @ B) = (p \<notin> set (A @ c @ B) \<and> distinct (A @ c @ B))"
  by auto

definition placed :: "memory \<Rightarrow> uint32_t \<Rightarrow> addr \<Rightarrow> nat \<Rightarrow> bool" where
  "placed M n p i \<longleftrightarrow> (\<exists>e. M p = Some e \<and> unat (hash e AND (n - 1)) = i)"

lemma rehash_inv:
  assumes "rehash M n ps (nl, cnt) = Some (nl', cnt')"
    and "distinct (ps @ concat nl)"
    and "\<forall>i < length nl. \<forall>q \<in> set (nl ! i). placed M n q i"
  shows "length nl' = length nl \<and> distinct (concat nl') \<and>
    set (concat nl') = set ps \<union> set (concat nl) \<and>
    (\<forall>i < length nl'. \<forall>q \<in> set (nl' ! i). placed M n q i) \<and>
    cnt' = cnt + of_nat (length ps)"
  using assms
proof (induction ps arbitrary: nl cnt)
  case Nil
  then show ?case by simp
next
  case (Cons p ps)
  from Cons.prems(1) obtain e where e: "M p = Some e"
    by (auto split: option.splits)
  define b where "b = unat (hash e AND (n - 1))"
  define nl1 where "nl1 = nl[b := p # nl ! b]"
  from Cons.prems(1) e have b: "b < length nl"
    and r: "rehash M n ps (nl1, cnt + 1) = Some (nl', cnt')"
    by (auto simp: Let_def b_def nl1_def split: if_splits)
  have c0: "concat nl = concat (take b nl) @ nl ! b @ concat (drop (Suc b) nl)"
    using b by (rule concat_split)
  have c1: "concat nl1 = concat (take b nl) @ (p # nl ! b) @ concat (drop (Suc b) nl)"
    unfolding nl1_def using b by (rule concat_update)
  have "set (concat (take b nl) @ (p # nl ! b) @ concat (drop (Suc b) nl)) =
      insert p (set (concat (take b nl) @ nl ! b @ concat (drop (Suc b) nl)))"
    by auto
  then have s1: "set (concat nl1) = insert p (set (concat nl))"
    by (simp only: c1 c0 [symmetric])
  have d1: "distinct (ps @ concat nl1)"
  proof -
    from Cons.prems(2) have "distinct (ps @ concat nl)" "p \<notin> set ps" "p \<notin> set (concat nl)"
      by auto
    moreover have "distinct (concat nl1) = (p \<notin> set (concat nl) \<and> distinct (concat nl))"
      unfolding c1 distinct_insert_mid by (simp only: c0 [symmetric])
    ultimately show ?thesis using s1 by auto
  qed
  have p1: "\<forall>i < length nl1. \<forall>q \<in> set (nl1 ! i). placed M n q i"
  proof (intro allI impI ballI)
    fix i q assume "i < length nl1" "q \<in> set (nl1 ! i)"
    then show "placed M n q i"
      using Cons.prems(3) b e
      by (cases "i = b") (auto simp: nl1_def placed_def b_def)
  qed
  from Cons.IH [OF r d1 p1] s1 show ?case
    by (auto simp: nl1_def)
qed

lemma Resize_ok:
  assumes ok: "table_ok M t" and r: "Resize M t = Some t'"
  shows "table_ok M t'" and "members t' = members t"
proof -
  from r obtain n nl cnt where
    n: "Resize_length 4 (ht_elems t) = Some n" and
    rh: "rehash M n (concat (take (unat (ht_length t)) (ht_list t)))
           (replicate (unat n) [], 0) = Some (nl, cnt)" and
    t': "t' = t\<lparr>ht_list := nl, ht_length := n\<rparr>"
    by (auto simp: Resize_def assert_def split: bind_splits if_splits)
  from ok have len: "length (ht_list t) = unat (ht_length t)" by (simp add: table_ok_def)
  then have rh': "rehash M n (concat (ht_list t)) (replicate (unat n) [], 0) = Some (nl, cnt)"
    using rh by simp
  have "distinct (concat (ht_list t) @ concat (replicate (unat n) []))"
    using table_ok_distinct [OF ok] by simp
  moreover have "\<forall>i < length (replicate (unat n) []). \<forall>q \<in> set (replicate (unat n) [] ! i).
      placed M n q i"
    by simp
  ultimately have *: "length nl = length (replicate (unat n) ([] :: addr list)) \<and>
    distinct (concat nl) \<and>
    set (concat nl) = set (concat (ht_list t)) \<union> set (concat (replicate (unat n) [])) \<and>
    (\<forall>i < length nl. \<forall>q \<in> set (nl ! i). placed M n q i) \<and>
    cnt = 0 + of_nat (length (concat (ht_list t)))"
    by (rule rehash_inv [OF rh'])
  then show m: "members t' = members t"
    by (simp add: members_def t')
  from Resize_length_zero [OF n] have "n \<noteq> 0" by auto
  moreover have "\<forall>p \<in> members t'. \<forall>q \<in> members t'. \<forall>e f.
        M p = Some e \<longrightarrow> M q = Some f \<longrightarrow> hash e = hash f \<longrightarrow> key_data e = key_data f
        \<longrightarrow> p = q"
    unfolding m using ok by (blast intro: table_ok_unique)
  ultimately show "table_ok M t'"
    using * unfolding table_ok_def by (simp add: t' placed_def)
qed


lemma find_pos:
  fixes M :: memory and t :: HandleTable and k :: Slice and h :: uint32_t
  assumes ok: "table_ok M t"
  defines "c \<equiv> ht_list t ! unat (h AND (ht_length t - 1))"
  defines "i \<equiv> length (takeWhile (\<lambda>p. \<not> matches M k h p) c)"
  shows "i < length c \<Longrightarrow> matches M k h (c ! i)"
    and "\<not> i < length c \<Longrightarrow> \<forall>p \<in> members t. \<not> matches M k h p"
proof -
  show "i < length c \<Longrightarrow> matches M k h (c ! i)"
    unfolding i_def using nth_length_takeWhile [of "\<lambda>p. \<not> matches M k h p" c] by simp
  assume "\<not> i < length c"
  then have "takeWhile (\<lambda>p. \<not> matches M k h p) c = c"
    unfolding i_def by (metis (no_types, lifting) not_less takeWhile_eq_take take_all)
  then have "\<forall>p \<in> set c. \<not> matches M k h p" by simp
  then show "\<forall>p \<in> members t. \<not> matches M k h p"
    unfolding c_def using matches_bucket [OF ok] by blast
qed

lemma update_nth_set:
  assumes "distinct c" and "i < length c" and "p \<notin> set c"
  shows "distinct (c[i := p])" and "set (c[i := p]) = insert p (set c - {c ! i})"
proof -
  have c: "c = take i c @ c ! i # drop (Suc i) c"
    using assms(2) by (rule id_take_nth_drop)
  have u: "c[i := p] = take i c @ p # drop (Suc i) c"
    using assms(2) by (rule upd_conv_take_nth_drop)
  from assms(1) c have d: "distinct (take i c @ c ! i # drop (Suc i) c)" by simp
  have sub: "set (take i c) \<subseteq> set c" "set (drop (Suc i) c) \<subseteq> set c"
    by (auto dest: in_set_takeD in_set_dropD)
  with d assms(3) show "distinct (c[i := p])" unfolding u by auto
  have "set c = set (take i c @ c ! i # drop (Suc i) c)" using c by simp
  with d show "set (c[i := p]) = insert p (set c - {c ! i})" unfolding u by auto
qed

lemma HT_Insert_ok:
  assumes ok: "table_ok M t" and e: "M p = Some e" and fresh: "p \<notin> members t"
    and ins: "HT_Insert M t p = Some (old, t')"
  shows "HT_Lookup M t (key_data e) (hash e) = Some old"
    and "table_ok M t'"
    and "members t' = insert p (members t - set_option old)"
proof -
  define k where "k = key_data e"
  define h where "h = hash e"
  define b where "b = unat (h AND (ht_length t - 1))"
  define c where "c = ht_list t ! b"
  define i where "i = length (takeWhile (\<lambda>p. \<not> matches M k h p) c)"
  have b: "b < length (ht_list t)" unfolding b_def using ok by (rule table_ok_bucket)
  have fp: "FindPointer M t k h = Some (b, i)"
    unfolding b_def c_def i_def by (rule FindPointer_ok [OF ok])
  have l: "HT_Lookup M t k h = Some (slot t (b, i))"
    by (simp add: HT_Lookup_def fp)
  have dc: "distinct c" unfolding c_def using ok b by (rule chain_distinct)
  have sub: "set c \<subseteq> members t"
    unfolding c_def using b by (rule nth_subset_members)
  have pc: "p \<notin> set c" using fresh sub by auto
  have pm: "matches M k h p" using e by (simp add: matches_def k_def h_def)
  have place: "\<exists>e. M p = Some e \<and> unat (hash e AND (ht_length t - 1)) = b"
    using e by (simp add: b_def h_def)
  have samekey: "\<And>q f. M q = Some f \<Longrightarrow> hash e = hash f \<Longrightarrow> key_data e = key_data f
      \<Longrightarrow> matches M k h q"
    by (simp add: matches_def k_def h_def)
  show "HT_Lookup M t (key_data e) (hash e) = Some old"
    and "table_ok M t'"
    and "members t' = insert p (members t - set_option old)"
  proof (atomize (full), cases "i < length c")
    case True
    define c' where "c' = c[i := p]"
    define t1 where "t1 = t\<lparr>ht_list := (ht_list t)[b := c']\<rparr>"
    have sl: "slot t (b, i) = Some (c ! i)"
      using True by (simp add: slot_def Let_def c_def)
    from ins have res: "old = Some (c ! i)" "t' = t1"
      using True e fp
      by (auto simp: HT_Insert_def slot_def Let_def c_def c'_def t1_def k_def h_def)
    have d': "distinct c'" and s': "set c' = insert p (set c - {c ! i})"
      unfolding c'_def using update_nth_set [OF dc True pc] by blast+
    have ci: "c ! i \<in> set c" using True by simp
    have mi: "matches M k h (c ! i)"
      using find_pos(1) [OF ok, of k h] True unfolding i_def c_def b_def by simp
    have old: "\<forall>q \<in> set c'. q \<in> set (ht_list t ! b) \<or>
               (q \<notin> members t \<and> (\<exists>e. M q = Some e \<and> unat (hash e AND (ht_length t - 1)) = b))"
      using s' fresh place by (auto simp: c_def)
    have new: "\<forall>q \<in> set c' - members t. \<forall>r \<in> (members t - set (ht_list t ! b)) \<union> set c'.
               \<forall>e f. M q = Some e \<longrightarrow> M r = Some f \<longrightarrow> hash e = hash f \<longrightarrow>
                 key_data e = key_data f \<longrightarrow> q = r"
    proof (intro ballI allI impI)
      fix q r e' f
      assume q: "q \<in> set c' - members t"
        and r: "r \<in> (members t - set (ht_list t ! b)) \<union> set c'"
        and k: "M q = Some e'" "M r = Some f" "hash e' = hash f" "key_data e' = key_data f"
      from q s' sub have qp: "q = p" by auto
      with k e have mr: "matches M k h r" by (auto intro: samekey)
      show "q = r"
      proof (rule ccontr)
        assume "q \<noteq> r"
        with r s' qp have rm: "r \<in> members t" "r \<noteq> c ! i"
          using sub ci by (auto simp: c_def)
        from matches_unique [OF ok rm(1) _ mr mi] ci sub rm(2) show False by auto
      qed
    qed
    have ok1: "table_ok M t1" unfolding t1_def
      using ok b d' old new by (rule bucket_update(1))
    have "members t1 = (members t - set (ht_list t ! b)) \<union> set c'" unfolding t1_def
      using ok b d' old new by (rule bucket_update(2))
    then have "members t1 = (members t - set c) \<union> set c'" by (simp add: c_def)
    then have "members t1 = insert p (members t - {c ! i})"
      using s' sub ci by auto
    with ok1 res l sl show "HT_Lookup M t (key_data e) (hash e) = Some old \<and>
      table_ok M t' \<and> members t' = insert p (members t - set_option old)"
      by (simp add: k_def h_def)
  next
    case False
    define c' where "c' = c @ [p]"
    define t1 where "t1 = t\<lparr>ht_list := (ht_list t)[b := c']\<rparr>"
    define t2 where "t2 = t1\<lparr>ht_elems := ht_elems t1 + 1\<rparr>"
    have sl: "slot t (b, i) = None"
      using False by (simp add: slot_def Let_def c_def)
    from ins have res: "old = None"
      and t': "t' = t2 \<or> Resize M t2 = Some t'"
      using False e fp
      by (auto simp: HT_Insert_def slot_def Let_def c_def c'_def t1_def t2_def k_def h_def
          split: if_splits)
    have nomatch: "\<forall>q \<in> members t. \<not> matches M k h q"
      using find_pos(2) [OF ok, of k h] False unfolding i_def c_def b_def by simp
    have d': "distinct c'" and s': "set c' = insert p (set c)"
      unfolding c'_def using dc pc by auto
    have old: "\<forall>q \<in> set c'. q \<in> set (ht_list t ! b) \<or>
               (q \<notin> members t \<and> (\<exists>e. M q = Some e \<and> unat (hash e AND (ht_length t - 1)) = b))"
      using s' fresh place by (auto simp: c_def)
    have new: "\<forall>q \<in> set c' - members t. \<forall>r \<in> (members t - set (ht_list t ! b)) \<union> set c'.
               \<forall>e f. M q = Some e \<longrightarrow> M r = Some f \<longrightarrow> hash e = hash f \<longrightarrow>
                 key_data e = key_data f \<longrightarrow> q = r"
    proof (intro ballI allI impI)
      fix q r e' f
      assume q: "q \<in> set c' - members t"
        and r: "r \<in> (members t - set (ht_list t ! b)) \<union> set c'"
        and k: "M q = Some e'" "M r = Some f" "hash e' = hash f" "key_data e' = key_data f"
      from q s' sub have qp: "q = p" by auto
      with k e have mr: "matches M k h r" by (auto intro: samekey)
      with nomatch have "r \<notin> members t" by auto
      with r s' sub have "r = p" by (auto simp: c_def)
      with qp show "q = r" by simp
    qed
    have ok1: "table_ok M t1" unfolding t1_def
      using ok b d' old new by (rule bucket_update(1))
    have "members t1 = (members t - set (ht_list t ! b)) \<union> set c'" unfolding t1_def
      using ok b d' old new by (rule bucket_update(2))
    then have "members t1 = (members t - set c) \<union> set c'" by (simp add: c_def)
    then have m1: "members t1 = insert p (members t)"
      using s' sub by auto
    have ok2: "table_ok M t2" and m2: "members t2 = insert p (members t)"
      using ok1 m1 by (simp_all add: t2_def)
    from t' have "table_ok M t' \<and> members t' = insert p (members t)"
    proof
      assume "t' = t2" with ok2 m2 show ?thesis by simp
    next
      assume "Resize M t2 = Some t'"
      with Resize_ok [OF ok2] m2 show ?thesis by simp
    qed
    with res l sl show "HT_Lookup M t (key_data e) (hash e) = Some old \<and>
      table_ok M t' \<and> members t' = insert p (members t - set_option old)"
      by (simp add: k_def h_def)
  qed
qed


section \<open>The invariant of a shard\<close>

text \<open>
  \<open>shard_inv_ex X\<close> collects what every operation maintains: no entry is on the two
  lists twice; the entries on the lists are exactly the allocated records with
  \<open>in_cache\<close> set; \<open>usage\<close> is the sum of their charges; an entry on the LRU list has
  \<open>refs = 1\<close>; nothing is allocated at or above \<open>brk\<close>; the table is well formed and
  holds the entries on the lists, except those in \<open>X\<close>.  Between the calls of the
  table and of \<open>FinishErase\<close> one entry is out of the table and still on a list, which
  is what \<open>X\<close> is for; between operations \<open>X\<close> is empty.
\<close>

definition charge_at :: "memory \<Rightarrow> addr \<Rightarrow> size_t" where
  "charge_at M p = (case M p of None \<Rightarrow> 0 | Some e \<Rightarrow> charge e)"

definition shard_inv_ex :: "addr set \<Rightarrow> LRUCache \<Rightarrow> bool" where
  "shard_inv_ex X s \<longleftrightarrow>
     distinct (lru s @ in_use s) \<and>
     (\<forall>p. p \<in> set (lru s @ in_use s) \<longleftrightarrow> (\<exists>e. mem s p = Some e \<and> in_cache e)) \<and>
     usage s = sum_list (map (charge_at (mem s)) (lru s @ in_use s)) \<and>
     (\<forall>p \<in> set (lru s). \<exists>e. mem s p = Some e \<and> refs e = 1) \<and>
     (\<forall>p. brk s \<le> p \<longrightarrow> mem s p = None) \<and>
     table_ok (mem s) (table s) \<and>
     members (table s) = set (lru s @ in_use s) - X"

definition shard_inv :: "LRUCache \<Rightarrow> bool" where
  "shard_inv s = shard_inv_ex {} s"

lemma inv_distinct: "shard_inv_ex X s \<Longrightarrow> distinct (lru s @ in_use s)"
  and inv_cached: "shard_inv_ex X s \<Longrightarrow>
      p \<in> set (lru s @ in_use s) \<longleftrightarrow> (\<exists>e. mem s p = Some e \<and> in_cache e)"
  and inv_usage: "shard_inv_ex X s \<Longrightarrow>
      usage s = sum_list (map (charge_at (mem s)) (lru s @ in_use s))"
  and inv_lru_refs: "shard_inv_ex X s \<Longrightarrow> p \<in> set (lru s) \<Longrightarrow>
      \<exists>e. mem s p = Some e \<and> refs e = 1"
  and inv_brk: "shard_inv_ex X s \<Longrightarrow> brk s \<le> p \<Longrightarrow> mem s p = None"
  and inv_table_ok: "shard_inv_ex X s \<Longrightarrow> table_ok (mem s) (table s)"
  and inv_members: "shard_inv_ex X s \<Longrightarrow> members (table s) = set (lru s @ in_use s) - X"
  unfolding shard_inv_ex_def by blast+

lemma shard_inv_exI:
  assumes "distinct (lru s @ in_use s)"
    and "\<And>p. p \<in> set (lru s @ in_use s) \<longleftrightarrow> (\<exists>e. mem s p = Some e \<and> in_cache e)"
    and "usage s = sum_list (map (charge_at (mem s)) (lru s @ in_use s))"
    and "\<And>p. p \<in> set (lru s) \<Longrightarrow> \<exists>e. mem s p = Some e \<and> refs e = 1"
    and "\<And>p. brk s \<le> p \<Longrightarrow> mem s p = None"
    and "table_ok (mem s) (table s)"
    and "members (table s) = set (lru s @ in_use s) - X"
  shows "shard_inv_ex X s"
  unfolding shard_inv_ex_def using assms by blast

lemma table_ok_cong:
  assumes ok: "table_ok M t"
    and same: "\<forall>q \<in> members t. \<exists>e e'. M q = Some e \<and> M' q = Some e' \<and>
                 hash e' = hash e \<and> key_data e' = key_data e"
  shows "table_ok M' t"
proof -
  have place: "\<forall>i < length (ht_list t). \<forall>p \<in> set (ht_list t ! i).
        \<exists>e. M' p = Some e \<and> unat (hash e AND (ht_length t - 1)) = i"
  proof (intro allI impI ballI)
    fix i p assume i: "i < length (ht_list t)" and p: "p \<in> set (ht_list t ! i)"
    then have "p \<in> members t" using nth_subset_members by blast
    with same obtain e e' where "M p = Some e" "M' p = Some e'" "hash e' = hash e"
      by blast
    with table_ok_place [OF ok i p] show "\<exists>e. M' p = Some e \<and> unat (hash e AND (ht_length t - 1)) = i"
      by auto
  qed
  have uniq: "\<forall>p \<in> members t. \<forall>q \<in> members t. \<forall>e f.
        M' p = Some e \<longrightarrow> M' q = Some f \<longrightarrow> hash e = hash f \<longrightarrow> key_data e = key_data f
        \<longrightarrow> p = q"
  proof (intro ballI allI impI)
    fix p q e f
    assume p: "p \<in> members t" and q: "q \<in> members t"
      and k: "M' p = Some e" "M' q = Some f" "hash e = hash f" "key_data e = key_data f"
    from same p k obtain e0 where e0: "M p = Some e0" "hash e = hash e0" "key_data e = key_data e0"
      by fastforce
    from same q k obtain f0 where f0: "M q = Some f0" "hash f = hash f0" "key_data f = key_data f0"
      by fastforce
    from table_ok_unique [OF ok p q e0(1) f0(1)] e0 f0 k show "p = q" by simp
  qed
  from ok place uniq show ?thesis unfolding table_ok_def by simp
qed

lemma table_ok_upd:
  assumes ok: "table_ok M t" and p: "M p = Some e0"
    and "hash e = hash e0" and "key_data e = key_data e0"
  shows "table_ok (M(p \<mapsto> e)) t"
proof (rule table_ok_cong [OF ok], intro ballI)
  fix q assume "q \<in> members t"
  with table_ok_alloc [OF ok] obtain f where "M q = Some f" by blast
  with assms show "\<exists>e0 e'. M q = Some e0 \<and> (M(p \<mapsto> e)) q = Some e' \<and>
      hash e' = hash e0 \<and> key_data e' = key_data e0"
    by (cases "q = p") auto
qed

lemma table_ok_upd_other:
  assumes ok: "table_ok M t" and p: "p \<notin> members t"
  shows "table_ok (M(p := x)) t"
proof (rule table_ok_cong [OF ok], intro ballI)
  fix q assume q: "q \<in> members t"
  with table_ok_alloc [OF ok] obtain f where "M q = Some f" by blast
  with p q show "\<exists>e0 e'. M q = Some e0 \<and> (M(p := x)) q = Some e' \<and>
      hash e' = hash e0 \<and> key_data e' = key_data e0"
    by (cases "q = p") auto
qed

lemma charge_at_upd:
  "M p = Some e0 \<Longrightarrow> charge e = charge e0 \<Longrightarrow> charge_at (M(p \<mapsto> e)) = charge_at M"
  by (auto simp: charge_at_def fun_eq_iff)

lemma sum_charge_cong:
  "\<forall>q \<in> set xs. M' q = M q \<Longrightarrow>
   sum_list (map (charge_at M') xs) = sum_list (map (charge_at M) xs)"
  by (induction xs) (auto simp: charge_at_def)

lemma shard_inv_ex_deleted [simp]:
  "shard_inv_ex X (s\<lparr>deleted := d\<rparr>) = shard_inv_ex X s"
  by (simp add: shard_inv_ex_def)

lemma shard_inv_deleted [simp]: "shard_inv (s\<lparr>deleted := d\<rparr>) = shard_inv s"
  by (simp add: shard_inv_def)

lemma inv_mem_update:
  assumes inv: "shard_inv_ex X s" and p: "mem s p = Some e0"
    and same: "hash e = hash e0" "key_data e = key_data e0" "charge e = charge e0"
      "in_cache e = in_cache e0"
    and r: "p \<in> set (lru s) \<longrightarrow> refs e = 1"
  shows "shard_inv_ex X (s\<lparr>mem := (mem s)(p \<mapsto> e)\<rparr>)"
proof (rule shard_inv_exI)
  let ?s = "s\<lparr>mem := (mem s)(p \<mapsto> e)\<rparr>"
  show "distinct (lru ?s @ in_use ?s)" using inv_distinct [OF inv] by simp
  show "table_ok (mem ?s) (table ?s)"
    using table_ok_upd [OF inv_table_ok [OF inv] p same(1,2)] by simp
  show "members (table ?s) = set (lru ?s @ in_use ?s) - X"
    using inv_members [OF inv] by simp
  show "usage ?s = sum_list (map (charge_at (mem ?s)) (lru ?s @ in_use ?s))"
    using inv_usage [OF inv] charge_at_upd [of "mem s" p e0 e] p same(3) by simp
  show "\<And>q. q \<in> set (lru ?s @ in_use ?s) \<longleftrightarrow> (\<exists>e. mem ?s q = Some e \<and> in_cache e)"
    using inv_cached [OF inv] p same(4) by auto
  show "\<And>q. q \<in> set (lru ?s) \<Longrightarrow> \<exists>e. mem ?s q = Some e \<and> refs e = 1"
    using inv_lru_refs [OF inv] r by auto
  show "\<And>q. brk ?s \<le> q \<Longrightarrow> mem ?s q = None"
    using inv_brk [OF inv] p by auto
qed

lemma inv_free:
  assumes inv: "shard_inv_ex {} s" and p: "mem s p = Some e" and nc: "\<not> in_cache e"
  shows "shard_inv_ex {} (s\<lparr>mem := (mem s)(p := None)\<rparr>)"
proof (rule shard_inv_exI)
  let ?s = "s\<lparr>mem := (mem s)(p := None)\<rparr>"
  from inv_cached [OF inv, of p] p nc have pl: "p \<notin> set (lru s @ in_use s)" by auto
  with inv_members [OF inv] have pm: "p \<notin> members (table s)" by simp
  show "distinct (lru ?s @ in_use ?s)" using inv_distinct [OF inv] by simp
  show "table_ok (mem ?s) (table ?s)"
    using table_ok_upd_other [OF inv_table_ok [OF inv] pm] by simp
  show "members (table ?s) = set (lru ?s @ in_use ?s) - {}"
    using inv_members [OF inv] by simp
  have "sum_list (map (charge_at ((mem s)(p := None))) (lru s @ in_use s)) =
      sum_list (map (charge_at (mem s)) (lru s @ in_use s))"
    using pl by (intro sum_charge_cong) auto
  then show "usage ?s = sum_list (map (charge_at (mem ?s)) (lru ?s @ in_use ?s))"
    using inv_usage [OF inv] by simp
  show "\<And>q. q \<in> set (lru ?s @ in_use ?s) \<longleftrightarrow> (\<exists>e. mem ?s q = Some e \<and> in_cache e)"
    using inv_cached [OF inv] p nc by auto
  show "\<And>q. q \<in> set (lru ?s) \<Longrightarrow> \<exists>e. mem ?s q = Some e \<and> refs e = 1"
    using inv_lru_refs [OF inv] pl by auto
  show "\<And>q. brk ?s \<le> q \<Longrightarrow> mem ?s q = None"
    using inv_brk [OF inv] by auto
qed


lemma lists_update_swap:
  "(s :: LRUCache)\<lparr>in_use := a, lru := b\<rparr> = s\<lparr>lru := b, in_use := a\<rparr>"
  by (cases s) simp

lemma inv_relist:
  assumes inv: "shard_inv_ex X s"
    and d: "distinct (l' @ u')"
    and set_eq: "set (l' @ u') = set (lru s @ in_use s)"
    and sm: "sum_list (map (charge_at (mem s)) (l' @ u')) =
             sum_list (map (charge_at (mem s)) (lru s @ in_use s))"
    and r: "\<And>q. q \<in> set l' \<Longrightarrow> \<exists>e. mem s q = Some e \<and> refs e = 1"
  shows "shard_inv_ex X (s\<lparr>lru := l', in_use := u'\<rparr>)"
proof (rule shard_inv_exI)
  let ?s = "s\<lparr>lru := l', in_use := u'\<rparr>"
  show "distinct (lru ?s @ in_use ?s)" using d by simp
  show "table_ok (mem ?s) (table ?s)" using inv_table_ok [OF inv] by simp
  show "members (table ?s) = set (lru ?s @ in_use ?s) - X"
    using inv_members [OF inv] set_eq by simp
  show "usage ?s = sum_list (map (charge_at (mem ?s)) (lru ?s @ in_use ?s))"
    using inv_usage [OF inv] sm by simp
  show "\<And>q. q \<in> set (lru ?s @ in_use ?s) \<longleftrightarrow> (\<exists>e. mem ?s q = Some e \<and> in_cache e)"
    using inv_cached [OF inv] set_eq by simp
  show "\<And>q. q \<in> set (lru ?s) \<Longrightarrow> \<exists>e. mem ?s q = Some e \<and> refs e = 1"
    using r by simp
  show "\<And>q. brk ?s \<le> q \<Longrightarrow> mem ?s q = None"
    using inv_brk [OF inv] by simp
qed

lemma inv_move:
  assumes inv: "shard_inv_ex X s" and p: "mem s p = Some e" and c: "in_cache e"
    and r: "l = LRU \<longrightarrow> refs e = 1"
  shows "\<exists>s1. LRU_Remove p s = Some s1 \<and> shard_inv_ex X (LRU_Append l p s1)"
proof -
  from inv_cached [OF inv, of p] p c have pl: "p \<in> set (lru s @ in_use s)" by auto
  note d = inv_distinct [OF inv]
  have rest: "\<And>q. q \<in> set (remove1 p (lru s)) \<Longrightarrow> \<exists>e. mem s q = Some e \<and> refs e = 1"
    using inv_lru_refs [OF inv] by (auto dest: notin_set_remove1)
  let ?f = "charge_at (mem s)"
  show ?thesis
  proof (cases "p \<in> set (lru s)")
    case True
    have rm: "LRU_Remove p s = Some (s\<lparr>lru := remove1 p (lru s)\<rparr>)"
      using True by (simp add: LRU_Remove_def)
    have sm: "sum_list (map ?f (lru s)) = ?f p + sum_list (map ?f (remove1 p (lru s)))"
      using True by (rule sum_list_map_remove1)
    show ?thesis
    proof (cases l)
      case LRU
      have "shard_inv_ex X (s\<lparr>lru := remove1 p (lru s) @ [p], in_use := in_use s\<rparr>)"
      proof (rule inv_relist [OF inv])
        show "distinct ((remove1 p (lru s) @ [p]) @ in_use s)" using d True by auto
        show "set ((remove1 p (lru s) @ [p]) @ in_use s) = set (lru s @ in_use s)"
          using d True by auto
        show "sum_list (map ?f ((remove1 p (lru s) @ [p]) @ in_use s)) =
            sum_list (map ?f (lru s @ in_use s))"
          using sm by (simp add: ac_simps)
        show "\<And>q. q \<in> set (remove1 p (lru s) @ [p]) \<Longrightarrow> \<exists>e. mem s q = Some e \<and> refs e = 1"
          using rest r p LRU by auto
      qed
      with rm LRU show ?thesis by (simp add: LRU_Append_def)
    next
      case IN_USE
      have "shard_inv_ex X (s\<lparr>lru := remove1 p (lru s), in_use := in_use s @ [p]\<rparr>)"
      proof (rule inv_relist [OF inv])
        show "distinct (remove1 p (lru s) @ in_use s @ [p])" using d True by auto
        show "set (remove1 p (lru s) @ in_use s @ [p]) = set (lru s @ in_use s)"
          using d True by auto
        show "sum_list (map ?f (remove1 p (lru s) @ in_use s @ [p])) =
            sum_list (map ?f (lru s @ in_use s))"
          using sm by (simp add: ac_simps)
        show "\<And>q. q \<in> set (remove1 p (lru s)) \<Longrightarrow> \<exists>e. mem s q = Some e \<and> refs e = 1"
          using rest by auto
      qed
      with rm IN_USE show ?thesis by (simp add: LRU_Append_def)
    qed
  next
    case False
    with pl have pu: "p \<in> set (in_use s)" by simp
    have rm: "LRU_Remove p s = Some (s\<lparr>in_use := remove1 p (in_use s)\<rparr>)"
      using False pu by (simp add: LRU_Remove_def)
    have sm: "sum_list (map ?f (in_use s)) = ?f p + sum_list (map ?f (remove1 p (in_use s)))"
      using pu by (rule sum_list_map_remove1)
    show ?thesis
    proof (cases l)
      case LRU
      have "shard_inv_ex X (s\<lparr>lru := lru s @ [p], in_use := remove1 p (in_use s)\<rparr>)"
      proof (rule inv_relist [OF inv])
        show "distinct ((lru s @ [p]) @ remove1 p (in_use s))" using d pu False by auto
        show "set ((lru s @ [p]) @ remove1 p (in_use s)) = set (lru s @ in_use s)"
          using d pu by auto
        show "sum_list (map ?f ((lru s @ [p]) @ remove1 p (in_use s))) =
            sum_list (map ?f (lru s @ in_use s))"
          using sm by (simp add: ac_simps)
        show "\<And>q. q \<in> set (lru s @ [p]) \<Longrightarrow> \<exists>e. mem s q = Some e \<and> refs e = 1"
          using inv_lru_refs [OF inv] r p LRU by auto
      qed
      with rm LRU show ?thesis by (simp add: LRU_Append_def lists_update_swap)
    next
      case IN_USE
      have "shard_inv_ex X (s\<lparr>lru := lru s, in_use := remove1 p (in_use s) @ [p]\<rparr>)"
      proof (rule inv_relist [OF inv])
        show "distinct (lru s @ remove1 p (in_use s) @ [p])" using d pu False by auto
        show "set (lru s @ remove1 p (in_use s) @ [p]) = set (lru s @ in_use s)"
          using d pu by auto
        show "sum_list (map ?f (lru s @ remove1 p (in_use s) @ [p])) =
            sum_list (map ?f (lru s @ in_use s))"
          using sm by (simp add: ac_simps)
        show "\<And>q. q \<in> set (lru s) \<Longrightarrow> \<exists>e. mem s q = Some e \<and> refs e = 1"
          using inv_lru_refs [OF inv] by auto
      qed
      with rm IN_USE show ?thesis by (simp add: LRU_Append_def)
    qed
  qed
qed


lemma Ref_inv:
  assumes inv: "shard_inv_ex X s" and r: "Ref p s = Some s'"
  shows "shard_inv_ex X s'"
proof -
  from r obtain e s1 where e: "mem s p = Some e"
    and s1: "(if refs e = 1 \<and> in_cache e
              then map_option (LRU_Append IN_USE p) (LRU_Remove p s) else Some s) = Some s1"
    and s': "s' = s1\<lparr>mem := (mem s1)(p \<mapsto> e\<lparr>refs := refs e + 1\<rparr>)\<rparr>"
    by (auto simp: Ref_def split: bind_splits)
  have "shard_inv_ex X s1 \<and> mem s1 p = Some e \<and> p \<notin> set (lru s1)"
  proof (cases "refs e = 1 \<and> in_cache e")
    case True
    with inv_move [OF inv e, of IN_USE] s1 obtain s0 where
      s0: "LRU_Remove p s = Some s0" "s1 = LRU_Append IN_USE p s0" "shard_inv_ex X s1"
      by auto
    from s0(1,2) e have "mem s1 p = Some e"
      by (auto simp: LRU_Remove_def LRU_Append_def split: if_splits)
    moreover from s0(1,2) inv_distinct [OF s0(3)] have "p \<notin> set (lru s1)"
      by (auto simp: LRU_Remove_def LRU_Append_def split: if_splits)
    ultimately show ?thesis using s0(3) by simp
  next
    case False
    with s1 have "s1 = s" by simp
    moreover have "p \<notin> set (lru s)"
    proof
      assume pl: "p \<in> set (lru s)"
      with inv_lru_refs [OF inv pl] inv_cached [OF inv, of p] e False show False by auto
    qed
    ultimately show ?thesis using inv e by simp
  qed
  then show ?thesis unfolding s' by (intro inv_mem_update) auto
qed

lemma Unref_inv:
  assumes inv: "shard_inv_ex {} s" and u: "Unref p s = Some s'"
  shows "shard_inv_ex {} s'"
proof -
  from u obtain e0 where e0: "mem s p = Some e0" and pos: "refs e0 \<noteq> 0"
    by (auto simp: Unref_def assert_def split: bind_splits if_splits)
  define e where "e = e0\<lparr>refs := refs e0 - 1\<rparr>"
  consider (free) "refs e = 0" | (move) "refs e \<noteq> 0" "in_cache e \<and> refs e = 1"
    | (keep) "refs e \<noteq> 0" "\<not> (in_cache e \<and> refs e = 1)"
    by blast
  then show ?thesis
  proof cases
    case free
    with u e0 have nc: "\<not> in_cache e0"
      and s': "s' = s\<lparr>deleted := deleted s @ [(p, deleter e, key_data e, val e)],
                      mem := (mem s)(p := None)\<rparr>"
      by (auto simp: Unref_def assert_def e_def Let_def split: bind_splits if_splits)
    have "shard_inv_ex {} ((s\<lparr>deleted := deleted s @ [(p, deleter e, key_data e, val e)]\<rparr>)
        \<lparr>mem := (mem s)(p := None)\<rparr>)"
      using inv_free [of "s\<lparr>deleted := deleted s @ [(p, deleter e, key_data e, val e)]\<rparr>" p e0]
        inv e0 nc by simp
    then show ?thesis unfolding s' .
  next
    case move
    let ?s1 = "s\<lparr>mem := (mem s)(p \<mapsto> e)\<rparr>"
    from move u e0 have s': "map_option (LRU_Append LRU p) (LRU_Remove p ?s1) = Some s'"
      by (auto simp: Unref_def assert_def e_def Let_def split: bind_splits if_splits)
    have inv1: "shard_inv_ex {} ?s1"
      using inv e0 move by (intro inv_mem_update) (auto simp: e_def)
    from inv_move [OF inv1, of p e LRU] move s' show ?thesis by auto
  next
    case keep
    from keep u e0 have s': "s' = s\<lparr>mem := (mem s)(p \<mapsto> e)\<rparr>"
      by (auto simp: Unref_def assert_def e_def Let_def split: bind_splits if_splits)
    have "p \<notin> set (lru s)"
    proof
      assume "p \<in> set (lru s)"
      from inv_lru_refs [OF inv this] e0 keep(1) show False by (simp add: e_def)
    qed
    then show ?thesis unfolding s'
      using inv e0 by (intro inv_mem_update) (auto simp: e_def)
  qed
qed

lemma Unref_returns:
  assumes inv: "shard_inv_ex {} s" and e0: "mem s p = Some e0" and pos: "refs e0 \<noteq> 0"
    and held: "refs e0 = 1 \<longrightarrow> \<not> in_cache e0"
  shows "\<exists>s'. Unref p s = Some s'"
proof -
  define e where "e = e0\<lparr>refs := refs e0 - 1\<rparr>"
  let ?s1 = "s\<lparr>mem := (mem s)(p \<mapsto> e)\<rparr>"
  have gt: "0 < refs e0" using pos by (simp add: word_neq_0_conv)
  show ?thesis
  proof (cases "in_cache e \<and> refs e = 1")
    case True
    have inv1: "shard_inv_ex {} ?s1"
      using inv e0 True by (intro inv_mem_update) (auto simp: e_def)
    from inv_move [OF inv1, of p e LRU] True obtain s1 where "LRU_Remove p ?s1 = Some s1"
      by auto
    with e0 gt True held show ?thesis
      by (auto simp: Unref_def assert_def e_def Let_def)
  next
    case False
    with e0 gt held show ?thesis
      by (auto simp: Unref_def assert_def e_def Let_def)
  qed
qed


lemma LRU_Remove_eq:
  assumes "p \<in> set (lru s @ in_use s)" and "distinct (lru s @ in_use s)"
  shows "LRU_Remove p s = Some (s\<lparr>lru := remove1 p (lru s), in_use := remove1 p (in_use s)\<rparr>)"
proof (cases "p \<in> set (lru s)")
  case True
  with assms(2) have "p \<notin> set (in_use s)" by auto
  then have "remove1 p (in_use s) = in_use s" by (rule remove1_idem)
  with True show ?thesis by (simp add: LRU_Remove_def)
next
  case False
  then have "remove1 p (lru s) = lru s" by (simp add: remove1_idem)
  with False assms(1) show ?thesis by (simp add: LRU_Remove_def)
qed

lemma sum_remove1_both:
  fixes f :: "addr \<Rightarrow> size_t"
  assumes "p \<in> set (l @ u)" and "distinct (l @ u)"
  shows "sum_list (map f (l @ u)) = f p + sum_list (map f (remove1 p l @ remove1 p u))"
proof (cases "p \<in> set l")
  case True
  with assms(2) have "p \<notin> set u" by auto
  then have "remove1 p u = u" by (rule remove1_idem)
  with sum_list_map_remove1 [OF True, of f] show ?thesis by (simp add: ac_simps)
next
  case False
  then have "remove1 p l = l" by (simp add: remove1_idem)
  moreover from False assms(1) have "p \<in> set u" by simp
  from sum_list_map_remove1 [OF this, of f] have
    "sum_list (map f u) = f p + sum_list (map f (remove1 p u))" .
  ultimately show ?thesis by (simp add: ac_simps)
qed

lemma inv_unlink:
  fixes s :: LRUCache and e :: LRUHandle
  assumes inv: "shard_inv_ex {p} s" and e: "mem s p = Some e" and c: "in_cache e"
  defines "s2 \<equiv> s\<lparr>lru := remove1 p (lru s), in_use := remove1 p (in_use s),
                    mem := (mem s)(p \<mapsto> e\<lparr>in_cache := False\<rparr>),
                    usage := usage s - charge e\<rparr>"
  shows "shard_inv_ex {} s2"
proof (rule shard_inv_exI)
  from inv_cached [OF inv, of p] e c have pl: "p \<in> set (lru s @ in_use s)" by auto
  note d = inv_distinct [OF inv]
  have set2: "set (lru s2 @ in_use s2) = set (lru s @ in_use s) - {p}"
    using d by (auto simp: s2_def)
  show "distinct (lru s2 @ in_use s2)"
    using d by (auto simp: s2_def dest: notin_set_remove1)
  show "table_ok (mem s2) (table s2)"
    using table_ok_upd [OF inv_table_ok [OF inv] e, of "e\<lparr>in_cache := False\<rparr>"]
    by (simp add: s2_def)
  show "members (table s2) = set (lru s2 @ in_use s2) - {}"
    using inv_members [OF inv] set2 by (simp add: s2_def)
  have ch: "charge_at (mem s2) = charge_at (mem s)"
    using charge_at_upd [of "mem s" p e "e\<lparr>in_cache := False\<rparr>"] e by (simp add: s2_def)
  have "charge_at (mem s) p = charge e" using e by (simp add: charge_at_def)
  with sum_remove1_both [OF pl d, of "charge_at (mem s)"] inv_usage [OF inv]
  show "usage s2 = sum_list (map (charge_at (mem s2)) (lru s2 @ in_use s2))"
    unfolding ch by (simp add: s2_def)
  show "\<And>q. q \<in> set (lru s2 @ in_use s2) \<longleftrightarrow> (\<exists>e. mem s2 q = Some e \<and> in_cache e)"
    unfolding set2 using inv_cached [OF inv] by (auto simp: s2_def)
  show "\<And>q. q \<in> set (lru s2) \<Longrightarrow> \<exists>e. mem s2 q = Some e \<and> refs e = 1"
  proof -
    fix q assume "q \<in> set (lru s2)"
    then have "q \<in> set (lru s)" "q \<noteq> p"
      using d by (auto simp: s2_def dest: notin_set_remove1)
    with inv_lru_refs [OF inv] show "\<exists>e. mem s2 q = Some e \<and> refs e = 1"
      by (auto simp: s2_def)
  qed
  show "\<And>q. brk s2 \<le> q \<Longrightarrow> mem s2 q = None"
    using inv_brk [OF inv] e by (auto simp: s2_def)
qed

lemma FinishErase_unfold:
  assumes inv: "shard_inv_ex {p} s" and e: "mem s p = Some e" and c: "in_cache e"
  shows "FinishErase (Some p) s =
    map_option (Pair True)
      (Unref p (s\<lparr>lru := remove1 p (lru s), in_use := remove1 p (in_use s),
                    mem := (mem s)(p \<mapsto> e\<lparr>in_cache := False\<rparr>),
                    usage := usage s - charge e\<rparr>))"
proof -
  from inv_cached [OF inv, of p] e c have pl: "p \<in> set (lru s @ in_use s)" by auto
  from LRU_Remove_eq [OF pl inv_distinct [OF inv]] e c show ?thesis
    by (simp add: FinishErase_def assert_def Let_def map_option_case split: option.splits)
qed

lemma FinishErase_inv:
  assumes inv: "shard_inv_ex {p} s" and fe: "FinishErase (Some p) s = Some (b, s')"
  shows "shard_inv_ex {} s'"
proof -
  from fe obtain e where e: "mem s p = Some e" and c: "in_cache e"
    by (auto simp: FinishErase_def assert_def split: bind_splits if_splits)
  from fe FinishErase_unfold [OF inv e c] have
    "Unref p (s\<lparr>lru := remove1 p (lru s), in_use := remove1 p (in_use s),
                    mem := (mem s)(p \<mapsto> e\<lparr>in_cache := False\<rparr>),
                    usage := usage s - charge e\<rparr>) = Some s'"
    by auto
  with inv_unlink [OF inv e c] show ?thesis by (rule Unref_inv)
qed

lemma FinishErase_returns:
  assumes inv: "shard_inv_ex {p} s" and e: "mem s p = Some e" and c: "in_cache e"
    and pos: "refs e \<noteq> 0"
  shows "\<exists>s'. FinishErase (Some p) s = Some (True, s')"
proof -
  let ?s2 = "s\<lparr>lru := remove1 p (lru s), in_use := remove1 p (in_use s),
                    mem := (mem s)(p \<mapsto> e\<lparr>in_cache := False\<rparr>),
                    usage := usage s - charge e\<rparr>"
  have "\<exists>s'. Unref p ?s2 = Some s'"
    using inv_unlink [OF inv e c] pos
    by (intro Unref_returns [where ?e0.0 = "e\<lparr>in_cache := False\<rparr>"]) auto
  then show ?thesis unfolding FinishErase_unfold [OF inv e c] by auto
qed


lemma inv_set_table:
  assumes inv: "shard_inv_ex X s" and ok: "table_ok (mem s) t"
    and m: "members t = set (lru s @ in_use s) - Y"
  shows "shard_inv_ex Y (s\<lparr>table := t\<rparr>)"
  using inv_distinct [OF inv] inv_cached [OF inv] inv_usage [OF inv] inv_lru_refs [OF inv]
    inv_brk [OF inv] ok m
  by (intro shard_inv_exI) simp_all

lemma inv_table_remove:
  assumes inv: "shard_inv_ex {} s"
    and rm: "HT_Remove (mem s) (table s) k h = Some (r, t)"
  shows "shard_inv_ex (set_option r) (s\<lparr>table := t\<rparr>)"
    and "HT_Lookup (mem s) (table s) k h = Some r"
proof -
  from HT_Remove_ok [OF inv_table_ok [OF inv], of k h] rm
  have l: "HT_Lookup (mem s) (table s) k h = Some r" and ok: "table_ok (mem s) t"
    and m: "members t = members (table s) - set_option r"
    by auto
  show "HT_Lookup (mem s) (table s) k h = Some r" by (rule l)
  from m inv_members [OF inv] have "members t = set (lru s @ in_use s) - set_option r"
    by simp
  with inv ok show "shard_inv_ex (set_option r) (s\<lparr>table := t\<rparr>)"
    by (rule inv_set_table)
qed

lemma FinishErase_opt_inv:
  assumes inv: "shard_inv_ex (set_option r) s" and fe: "FinishErase r s = Some (b, s')"
  shows "shard_inv_ex {} s'"
proof (cases r)
  case None
  with inv fe show ?thesis by (simp add: FinishErase_def)
next
  case (Some q)
  with inv fe show ?thesis by (auto intro: FinishErase_inv)
qed

lemma Erase_inv:
  assumes inv: "shard_inv_ex {} s" and er: "Erase k h s = Some s'"
  shows "shard_inv_ex {} s'"
proof -
  from er obtain r t b where rm: "HT_Remove (mem s) (table s) k h = Some (r, t)"
    and fe: "FinishErase r (s\<lparr>table := t\<rparr>) = Some (b, s')"
    by (auto simp: Erase_def split: bind_splits)
  from inv_table_remove(1) [OF inv rm] fe show ?thesis by (rule FinishErase_opt_inv)
qed

lemma evict_oldest_inv:
  assumes inv: "shard_inv_ex {} s" and ev: "evict_oldest s = Some s'"
  shows "shard_inv_ex {} s'"
proof -
  from ev obtain e :: LRUHandle and r t b where
    rm: "HT_Remove (mem s) (table s) (key_data e) (hash e) = Some (r, t)"
    and fe: "FinishErase r (s\<lparr>table := t\<rparr>) = Some (b, s')"
    by (auto simp: evict_oldest_def split: list.splits bind_splits)
  from inv_table_remove(1) [OF inv rm] fe show ?thesis by (rule FinishErase_opt_inv)
qed

lemma Insert_loop_inv:
  "shard_inv_ex {} s \<Longrightarrow> Insert_loop s = Some s' \<Longrightarrow> shard_inv_ex {} s'"
proof (induction s rule: Insert_loop.induct)
  case (1 s)
  show ?case
  proof (cases "usage s > capacity s \<and> lru s \<noteq> []")
    case True
    with "1.prems"(2) obtain s1 where s1: "evict_oldest s = Some s1" "Insert_loop s1 = Some s'"
      by (subst (asm) Insert_loop.simps) (auto split: option.splits)
    from "1.IH" [OF True s1(1) evict_oldest_inv [OF "1.prems"(1) s1(1)] s1(2)]
    show ?thesis .
  next
    case False
    with "1.prems"(2) have "s' = s"
      by (subst (asm) Insert_loop.simps) auto
    with "1.prems"(1) show ?thesis by simp
  qed
qed

lemma Prune_inv:
  "shard_inv_ex {} s \<Longrightarrow> Prune s = Some s' \<Longrightarrow> shard_inv_ex {} s'"
proof (induction s rule: Prune.induct)
  case (1 s)
  show ?case
  proof (cases "lru s \<noteq> []")
    case True
    with "1.prems"(2) obtain s1 where s1: "evict_oldest s = Some s1" "Prune s1 = Some s'"
      by (subst (asm) Prune.simps) (auto split: option.splits)
    from "1.IH" [OF True s1(1) evict_oldest_inv [OF "1.prems"(1) s1(1)] s1(2)]
    show ?thesis .
  next
    case False
    with "1.prems"(2) have "s' = s"
      by (subst (asm) Prune.simps) auto
    with "1.prems"(1) show ?thesis by simp
  qed
qed

lemma Lookup_inv:
  assumes inv: "shard_inv_ex {} s" and l: "Lookup k h s = Some (r, s')"
  shows "shard_inv_ex {} s'"
proof (cases r)
  case None
  with l have "s' = s" by (auto simp: Lookup_def split: bind_splits option.splits)
  with inv show ?thesis by simp
next
  case (Some p)
  with l have "Ref p s = Some s'"
    by (auto simp: Lookup_def split: bind_splits option.splits)
  with inv show ?thesis by (rule Ref_inv)
qed

lemma inv_alloc:
  fixes s :: LRUCache and e :: LRUHandle
  assumes inv: "shard_inv_ex {} s" and c: "in_cache e"
  defines "p \<equiv> brk s"
  defines "s2 \<equiv> s\<lparr>mem := (mem s)(p \<mapsto> e), brk := Suc p, in_use := in_use s @ [p],
                    usage := usage s + charge e\<rparr>"
  shows "shard_inv_ex {p} s2"
proof (rule shard_inv_exI)
  have free: "mem s p = None" using inv_brk [OF inv, of p] by (simp add: p_def)
  with inv_cached [OF inv, of p] have pl: "p \<notin> set (lru s @ in_use s)" by auto
  with inv_members [OF inv] have pm: "p \<notin> members (table s)" by simp
  show "distinct (lru s2 @ in_use s2)"
    using inv_distinct [OF inv] pl by (auto simp: s2_def)
  show "table_ok (mem s2) (table s2)"
    using table_ok_upd_other [OF inv_table_ok [OF inv] pm] by (simp add: s2_def)
  show "members (table s2) = set (lru s2 @ in_use s2) - {p}"
    using inv_members [OF inv] pl by (auto simp: s2_def)
  have "sum_list (map (charge_at ((mem s)(p \<mapsto> e))) (lru s @ in_use s)) =
      sum_list (map (charge_at (mem s)) (lru s @ in_use s))"
    using pl by (intro sum_charge_cong) auto
  then show "usage s2 = sum_list (map (charge_at (mem s2)) (lru s2 @ in_use s2))"
    using inv_usage [OF inv] by (simp add: s2_def charge_at_def)
  show "\<And>q. q \<in> set (lru s2 @ in_use s2) \<longleftrightarrow> (\<exists>e. mem s2 q = Some e \<and> in_cache e)"
    using inv_cached [OF inv] c by (auto simp: s2_def)
  show "\<And>q. q \<in> set (lru s2) \<Longrightarrow> \<exists>e. mem s2 q = Some e \<and> refs e = 1"
    using inv_lru_refs [OF inv] pl by (auto simp: s2_def)
  show "\<And>q. brk s2 \<le> q \<Longrightarrow> mem s2 q = None"
    using inv_brk [OF inv] by (auto simp: s2_def p_def)
qed

lemma inv_alloc0:
  fixes s :: LRUCache and e :: LRUHandle
  assumes inv: "shard_inv_ex {} s" and c: "\<not> in_cache e"
  defines "s2 \<equiv> s\<lparr>mem := (mem s)(brk s \<mapsto> e), brk := Suc (brk s)\<rparr>"
  shows "shard_inv_ex {} s2"
proof (rule shard_inv_exI)
  let ?p = "brk s"
  have free: "mem s ?p = None" using inv_brk [OF inv, of ?p] by simp
  with inv_cached [OF inv, of ?p] have pl: "?p \<notin> set (lru s @ in_use s)" by auto
  with inv_members [OF inv] have pm: "?p \<notin> members (table s)" by simp
  show "distinct (lru s2 @ in_use s2)"
    using inv_distinct [OF inv] by (simp add: s2_def)
  show "table_ok (mem s2) (table s2)"
    using table_ok_upd_other [OF inv_table_ok [OF inv] pm] by (simp add: s2_def)
  show "members (table s2) = set (lru s2 @ in_use s2) - {}"
    using inv_members [OF inv] by (simp add: s2_def)
  have "sum_list (map (charge_at ((mem s)(?p \<mapsto> e))) (lru s @ in_use s)) =
      sum_list (map (charge_at (mem s)) (lru s @ in_use s))"
    using pl by (intro sum_charge_cong) auto
  then show "usage s2 = sum_list (map (charge_at (mem s2)) (lru s2 @ in_use s2))"
    using inv_usage [OF inv] by (simp add: s2_def)
  show "\<And>q. q \<in> set (lru s2 @ in_use s2) \<longleftrightarrow> (\<exists>e. mem s2 q = Some e \<and> in_cache e)"
    using inv_cached [OF inv] c free by (auto simp: s2_def)
  show "\<And>q. q \<in> set (lru s2) \<Longrightarrow> \<exists>e. mem s2 q = Some e \<and> refs e = 1"
    using inv_lru_refs [OF inv] pl by (auto simp: s2_def)
  show "\<And>q. brk s2 \<le> q \<Longrightarrow> mem s2 q = None"
    using inv_brk [OF inv] by (auto simp: s2_def)
qed


lemma Insert_unfold:
  "Insert k h v c d s =
     (let p = brk s;
          e = \<lparr>val = v, deleter = d, charge = c, in_cache = True, refs = 2, hash = h,
               key_data = k\<rparr>;
          e0 = \<lparr>val = v, deleter = d, charge = c, in_cache = False, refs = 1, hash = h,
                key_data = k\<rparr>
      in
      Option.bind
        (if capacity s > 0 then
           Option.bind
             (HT_Insert ((mem s)(p \<mapsto> e)) (table s) p)
             (\<lambda>(old, t). map_option snd
                (FinishErase old
                   (s\<lparr>mem := (mem s)(p \<mapsto> e), brk := Suc p, in_use := in_use s @ [p],
                      usage := usage s + c, table := t\<rparr>)))
         else Some (s\<lparr>mem := (mem s)(p \<mapsto> e0), brk := Suc p\<rparr>))
        (\<lambda>s1. map_option (Pair p) (Insert_loop s1)))"
  by (cases s)
    (auto simp: Insert_def Let_def LRU_Append_def map_option_case
      split: option.splits prod.splits bind_splits intro!: Option.bind_cong)

lemma Insert_inv:
  assumes inv: "shard_inv_ex {} s" and ins: "Insert k h v c d s = Some (p, s')"
  shows "shard_inv_ex {} s'"
proof -
  let ?e = "\<lparr>val = v, deleter = d, charge = c, in_cache = True, refs = 2,
     hash = h, key_data = k\<rparr>"
  let ?f = "\<lparr>val = v, deleter = d, charge = c, in_cache = False,
     refs = 1, hash = h, key_data = k\<rparr>"
  let ?s2 = "s\<lparr>mem := (mem s)(brk s \<mapsto> ?e), brk := Suc (brk s),
     in_use := in_use s @ [brk s], usage := usage s + c\<rparr>"
  have "\<exists>s1. shard_inv_ex {} s1 \<and> Insert_loop s1 = Some s'"
  proof (cases "capacity s > 0")
    case False
    with ins have "Insert_loop (s\<lparr>mem := (mem s)(brk s \<mapsto> ?f), brk := Suc (brk s)\<rparr>) = Some s'"
      unfolding Insert_unfold by (auto simp: Let_def split: bind_splits)
    with inv_alloc0 [OF inv, of ?f] show ?thesis by auto
  next
    case True
    with ins obtain old t b s1 where
      hi: "HT_Insert ((mem s)(brk s \<mapsto> ?e)) (table s) (brk s) = Some (old, t)"
      and fe: "FinishErase old (?s2\<lparr>table := t\<rparr>) = Some (b, s1)"
      and loop: "Insert_loop s1 = Some s'"
      unfolding Insert_unfold by (auto simp: Let_def split: bind_splits)
    have inv2: "shard_inv_ex {brk s} ?s2"
      using inv_alloc [OF inv, of ?e] by simp
    have ok2: "table_ok ((mem s)(brk s \<mapsto> ?e)) (table s)"
      using inv_table_ok [OF inv2] by simp
    have m2: "members (table s) = set (lru s @ in_use s)"
      using inv_members [OF inv] by simp
    have fresh: "brk s \<notin> members (table s)"
      using inv_members [OF inv2] by auto
    have me: "((mem s)(brk s \<mapsto> ?e)) (brk s) = Some ?e" by simp
    note io = HT_Insert_ok [OF ok2 me fresh hi]
    have old_in: "set_option old \<subseteq> members (table s)"
    proof (cases old)
      case None then show ?thesis by simp
    next
      case (Some q)
      with io(1) HT_Lookup_Some_iff [OF ok2] show ?thesis by auto
    qed
    have "members t = set (lru ?s2 @ in_use ?s2) - set_option old"
      using io(3) m2 old_in fresh by auto
    with inv2 io(2) have "shard_inv_ex (set_option old) (?s2\<lparr>table := t\<rparr>)"
      by (intro inv_set_table [OF inv2]) simp_all
    then have "shard_inv_ex {} s1" using fe by (rule FinishErase_opt_inv)
    with loop show ?thesis by auto
  qed
  then show ?thesis by (auto intro: Insert_loop_inv)
qed

lemma apply_op_inv:
  assumes inv: "shard_inv_ex {} s" and a: "apply_op x s = Some s'"
  shows "shard_inv_ex {} s'"
proof (cases x)
  case (OpInsert k h v c d)
  with a obtain p where "Insert k h v c d s = Some (p, s')" by auto
  with inv show ?thesis by (rule Insert_inv)
next
  case (OpLookup k h)
  with a obtain r where "Lookup k h s = Some (r, s')" by auto
  with inv show ?thesis by (rule Lookup_inv)
next
  case (OpRelease p)
  with a inv show ?thesis by (auto simp: Release_def intro: Unref_inv)
next
  case (OpErase k h)
  with a inv show ?thesis by (auto intro: Erase_inv)
next
  case OpPrune
  with a inv show ?thesis by (auto intro: Prune_inv)
qed

lemma table_ok_new:
  "table_ok M \<lparr>ht_length = 4, ht_elems = 0, ht_list = [[], [], [], []]\<rparr>"
  by (auto simp: table_ok_def members_def nth_Cons' )

lemma NewLRUCache_inv:
  assumes "NewLRUCache c = Some s"
  shows "shard_inv_ex {} s"
proof -
  from assms have s: "s = \<lparr>capacity = c, usage = 0, lru = [], in_use = [],
            table = \<lparr>ht_length = 4, ht_elems = 0, ht_list = [[], [], [], []]\<rparr>,
            mem = (\<lambda>_. None), brk = 0, deleted = []\<rparr>"
    by (simp add: NewLRUCache_eq)
  show ?thesis unfolding s
    by (rule shard_inv_exI) (simp_all add: table_ok_new members_def)
qed

lemma reachable_inv: "reachable c s \<Longrightarrow> shard_inv_ex {} s"
  by (induction rule: reachable.induct) (auto intro: NewLRUCache_inv apply_op_inv)


lemma reachable_shard10: "reachable 10 shard10"
  by (rule reachable_new) (rule NewLRUCache_10)

lemma reachable_pinned_one: "reachable 10 pinned_one"
  by (rule reachable_step [OF reachable_shard10, of "OpInsert ''a'' 1 100 6 0"])
    (simp add: Insert_a)

lemma reachable_pinned_pair: "reachable 10 pinned_pair"
  by (rule reachable_step [OF reachable_pinned_one, of "OpInsert ''b'' 2 200 6 0"])
    (simp add: Insert_b)

section \<open>The usage counter\<close>

text \<open>The sum of the charges of the cached entries as a natural number, without
  wrap-around.\<close>

definition charge_total :: "LRUCache \<Rightarrow> nat" where
  "charge_total s = sum_list (map (\<lambda>p. unat (charge_at (mem s) p)) (lru s @ in_use s))"

lemma unat_sum_list:
  "unat (sum_list (map f xs) :: size_t) = sum_list (map (\<lambda>x. unat (f x)) xs) mod 2 ^ 64"
proof (induction xs)
  case Nil
  then show ?case by simp
next
  case (Cons x xs)
  have "unat (f x + sum_list (map f xs)) =
      (unat (f x) + unat (sum_list (map f xs))) mod 2 ^ 64"
    by (simp add: unat_word_ariths)
  also have "\<dots> = (unat (f x) + sum_list (map (\<lambda>x. unat (f x)) xs) mod 2 ^ 64) mod 2 ^ 64"
    by (simp only: Cons.IH)
  also have "\<dots> = (unat (f x) + sum_list (map (\<lambda>x. unat (f x)) xs)) mod 2 ^ 64"
    by (rule mod_add_right_eq)
  finally show ?case by simp
qed

definition wrapped_pair :: LRUCache where
  "wrapped_pair =
     \<lparr>capacity = 10, usage = 0, lru = [], in_use = [0, 1],
      table = \<lparr>ht_length = 4, ht_elems = 2, ht_list = [[], [0], [1], []]\<rparr>,
      mem = [0 \<mapsto> \<lparr>val = 100, deleter = 0, charge = 9223372036854775808,
                      in_cache = True, refs = 2, hash = 1, key_data = ''a''\<rparr>,
             1 \<mapsto> \<lparr>val = 200, deleter = 0, charge = 9223372036854775808,
                      in_cache = True, refs = 2, hash = 2, key_data = ''b''\<rparr>],
      brk = 2, deleted = []\<rparr>"

text \<open>
  Claim C1, as stated, makes \<open>usage\<close> the sum of the charges.  \<open>usage_\<close> is a \<open>size_t\<close>
  and wraps around: after two inserts of charge \<open>2^63\<close> whose handles are held, both
  entries are on the in-use list, their charges sum to \<open>2^64\<close>, and \<open>usage\<close> is 0.
\<close>

theorem usage_sum_claim_counterexample:
  "NewLRUCache 10 = Some shard10 \<and>
   run [OpInsert ''a'' 1 100 9223372036854775808 0,
        OpInsert ''b'' 2 200 9223372036854775808 0] shard10 = Some wrapped_pair \<and>
   usage wrapped_pair = 0 \<and> charge_total wrapped_pair = 18446744073709551616"
proof -
  have "run [OpInsert ''a'' 1 100 9223372036854775808 0,
        OpInsert ''b'' 2 200 9223372036854775808 0] shard10 = Some wrapped_pair"
    by (simp add: eval_defs shard10_def wrapped_pair_def Insert_loop.simps)
  moreover have "charge_total wrapped_pair = 18446744073709551616"
    by (simp add: charge_total_def wrapped_pair_def charge_at_def)
  ultimately show ?thesis using NewLRUCache_10 by (simp add: wrapped_pair_def)
qed

text \<open>
  Claim C1, amended.  In every state that a sequence of insert, lookup, release, erase
  and prune operations reaches, \<open>usage\<close> is the sum of the charges of the entries on the
  LRU and in-use lists modulo \<open>2^64\<close>, and it is that sum itself whenever the sum is
  below \<open>2^64\<close>; no entry is on the lists twice, and the entries on the lists are exactly
  the allocated records whose \<open>in_cache\<close> is true.
\<close>

theorem usage_sum_of_charges:
  assumes "reachable c s"
  shows "unat (usage s) = charge_total s mod 2 ^ 64 \<and>
    (charge_total s < 2 ^ 64 \<longrightarrow> unat (usage s) = charge_total s) \<and>
    distinct (lru s @ in_use s) \<and>
    set (lru s @ in_use s) = {p. \<exists>e. mem s p = Some e \<and> in_cache e}"
proof -
  from assms have inv: "shard_inv_ex {} s" by (rule reachable_inv)
  from inv_cached [OF inv] have
    "set (lru s @ in_use s) = {p. \<exists>e. mem s p = Some e \<and> in_cache e}"
    by blast
  moreover have "unat (usage s) = charge_total s mod 2 ^ 64"
    unfolding inv_usage [OF inv] charge_total_def by (rule unat_sum_list)
  ultimately show ?thesis using inv_distinct [OF inv] by simp
qed

theorem usage_sum_of_charges_witness:
  "reachable 10 pinned_pair \<and> charge_total pinned_pair = 12 \<and>
   charge_total pinned_pair < 2 ^ 64 \<and> unat (usage pinned_pair) = 12"
proof -
  have t: "charge_total pinned_pair = 12"
    by (simp add: charge_total_def pinned_pair_def charge_at_def)
  with usage_sum_of_charges [OF reachable_pinned_pair]
  have "unat (usage pinned_pair) = 12" by simp
  with t reachable_pinned_pair show ?thesis by simp
qed


section \<open>Releasing a handle\<close>

text \<open>
  Claim C3.  A client holds a handle to the record \<open>e\<close> at \<open>p\<close> when the reference count
  includes the client's reference: \<open>refs\<close> is not 0, and it is not 1 while the cache
  also holds its own reference (\<open>in_cache\<close>).  \<open>Release\<close> of a held handle returns and
  decrements \<open>refs\<close>.  If the count becomes 0, the deleter is called with the entry's key
  and value and the record is freed.  Otherwise, if the entry is \<open>in_cache\<close> and the count
  becomes 1, the entry moves from the in-use list to the newest end of the LRU list.
  In every other case neither list changes.  The usage counter and the table never do.
\<close>

theorem Release_unref:
  assumes r: "reachable c s" and e: "mem s p = Some e"
    and pos: "refs e \<noteq> 0" and held: "refs e = 1 \<longrightarrow> \<not> in_cache e"
  shows "\<exists>s'. Release p s = Some s' \<and>
    (if refs e - 1 = 0 then
       mem s' = (mem s)(p := None) \<and>
       deleted s' = deleted s @ [(p, deleter e, key_data e, val e)] \<and>
       lru s' = lru s \<and> in_use s' = in_use s
     else
       mem s' = (mem s)(p \<mapsto> e\<lparr>refs := refs e - 1\<rparr>) \<and> deleted s' = deleted s \<and>
       (if in_cache e \<and> refs e - 1 = 1 then
          p \<in> set (in_use s) \<and> in_use s' = remove1 p (in_use s) \<and> lru s' = lru s @ [p]
        else lru s' = lru s \<and> in_use s' = in_use s)) \<and>
    usage s' = usage s \<and> table s' = table s \<and> capacity s' = capacity s \<and> brk s' = brk s"
proof -
  from r have inv: "shard_inv_ex {} s" by (rule reachable_inv)
  have gt: "0 < refs e" using pos by (simp add: word_neq_0_conv)
  consider (free) "refs e - 1 = 0" | (move) "refs e - 1 \<noteq> 0" "in_cache e \<and> refs e - 1 = 1"
    | (keep) "refs e - 1 \<noteq> 0" "\<not> (in_cache e \<and> refs e - 1 = 1)"
    by blast
  then show ?thesis
  proof cases
    case free
    then have "refs e = 1" by simp
    with held have "\<not> in_cache e" by simp
    with free e gt show ?thesis
      by (simp add: Release_def Unref_def assert_def Let_def)
  next
    case move
    from inv_cached [OF inv, of p] e move have pl: "p \<in> set (lru s @ in_use s)" by auto
    have nl: "p \<notin> set (lru s)"
    proof
      assume "p \<in> set (lru s)"
      from inv_lru_refs [OF inv this] e move show False by simp
    qed
    with pl have pu: "p \<in> set (in_use s)" by simp
    with nl move e gt show ?thesis
      by (simp add: Release_def Unref_def assert_def Let_def LRU_Remove_def LRU_Append_def)
  next
    case keep
    with e gt show ?thesis
      by (auto simp: Release_def Unref_def assert_def Let_def)
  qed
qed

theorem Release_unref_witness:
  "reachable 10 pinned_one \<and>
   map_option lru (Release 0 pinned_one) = Some [0] \<and>
   map_option in_use (Release 0 pinned_one) = Some [] \<and>
   map_option deleted (Release 0 pinned_one) = Some []"
proof -
  have e: "mem pinned_one 0 = Some \<lparr>val = 100, deleter = 0, charge = 6, in_cache = True,
      refs = 2, hash = 1, key_data = ''a''\<rparr>"
    by (simp add: pinned_one_def)
  from Release_unref [OF reachable_pinned_one e] obtain s' where
    "Release 0 pinned_one = Some s'" "lru s' = lru pinned_one @ [0]"
    "in_use s' = remove1 0 (in_use pinned_one)" "deleted s' = deleted pinned_one"
    by auto
  then show ?thesis using reachable_pinned_one by (simp add: pinned_one_def)
qed


section \<open>Capacity 0: caching turned off\<close>














section \<open>Prune\<close>

lemma evict_oldest_eq:
  assumes inv: "shard_inv_ex {} s" and l: "lru s = old # rest"
  shows "\<exists>e s'. mem s old = Some e \<and> evict_oldest s = Some s' \<and> lru s' = rest \<and>
    in_use s' = in_use s \<and> mem s' = (mem s)(old := None) \<and>
    deleted s' = deleted s @ [(old, deleter e, key_data e, val e)] \<and>
    usage s' = usage s - charge e \<and> capacity s' = capacity s \<and> brk s' = brk s \<and>
    members (table s') = members (table s) - {old}"
proof -
  have ol: "old \<in> set (lru s)" using l by simp
  from inv_lru_refs [OF inv ol] obtain e where e: "mem s old = Some e" and r1: "refs e = 1"
    by blast
  from inv_cached [OF inv, of old] ol e have c: "in_cache e" by auto
  have om: "old \<in> members (table s)" using inv_members [OF inv] ol by simp
  have "matches (mem s) (key_data e) (hash e) old" using e by (simp add: matches_def)
  with om have lk: "HT_Lookup (mem s) (table s) (key_data e) (hash e) = Some (Some old)"
    using HT_Lookup_Some_iff [OF inv_table_ok [OF inv]] by simp
  from HT_Remove_ok [OF inv_table_ok [OF inv], of "key_data e" "hash e"] lk
  obtain t where rm: "HT_Remove (mem s) (table s) (key_data e) (hash e) = Some (Some old, t)"
    and mt: "members t = members (table s) - {old}"
    by auto
  have inv1: "shard_inv_ex {old} (s\<lparr>table := t\<rparr>)"
    using inv_table_remove(1) [OF inv rm] by simp
  have e1: "mem (s\<lparr>table := t\<rparr>) old = Some e" using e by simp
  have nu: "old \<notin> set (in_use s)" using inv_distinct [OF inv] ol by auto
  then have ru: "remove1 old (in_use s) = in_use s" by (rule remove1_idem)
  let ?s' = "s\<lparr>table := t, lru := rest, mem := (mem s)(old := None),
      usage := usage s - charge e,
      deleted := deleted s @ [(old, deleter e, key_data e, val e)]\<rparr>"
  have "FinishErase (Some old) (s\<lparr>table := t\<rparr>) = Some (True, ?s')"
    unfolding FinishErase_unfold [OF inv1 e1 c]
    using l ru r1 by (simp add: Unref_def assert_def Let_def)
  with e r1 rm l have "evict_oldest s = Some ?s'"
    by (simp add: evict_oldest_def assert_def)
  with e mt show ?thesis by auto
qed

text \<open>The call of the deleter that finalizing the record at \<open>p\<close> makes.\<close>

definition call_of :: "memory \<Rightarrow> addr \<Rightarrow> (addr \<times> nat \<times> Slice \<times> nat) list" where
  "call_of M p =
     (case M p of None \<Rightarrow> [] | Some e \<Rightarrow> [(p, deleter e, key_data e, val e)])"

lemma filter_remove_nth:
  assumes "distinct c" and "i < length c"
  shows "filter (\<lambda>q. q \<noteq> c ! i) c = take i c @ drop (Suc i) c"
proof -
  have c: "c = take i c @ c ! i # drop (Suc i) c"
    using assms(2) by (simp add: id_take_nth_drop [symmetric])
  with assms(1) have d: "distinct (take i c @ c ! i # drop (Suc i) c)" by simp
  then have n: "c ! i \<notin> set (take i c)" "c ! i \<notin> set (drop (Suc i) c)" by auto
  have "filter (\<lambda>q. q \<noteq> c ! i) (take i c) = take i c"
    using n(1) by (intro filter_True) blast
  moreover have "filter (\<lambda>q. q \<noteq> c ! i) (drop (Suc i) c) = drop (Suc i) c"
    using n(2) by (intro filter_True) blast
  ultimately have "filter (\<lambda>q. q \<noteq> c ! i) (take i c @ c ! i # drop (Suc i) c) =
      take i c @ drop (Suc i) c"
    by simp
  with c show ?thesis by simp
qed

text \<open>Removing a key that the table holds unlinks its entry from its chain and leaves
  every other chain as it is.\<close>

lemma HT_Remove_found:
  assumes ok: "table_ok M t" and l: "HT_Lookup M t k h = Some (Some p)"
  shows "HT_Remove M t k h =
    Some (Some p, t\<lparr>ht_list := map (filter (\<lambda>q. q \<noteq> p)) (ht_list t),
                     ht_elems := ht_elems t - 1\<rparr>)"
proof -
  define b where "b = unat (h AND (ht_length t - 1))"
  define c where "c = ht_list t ! b"
  define i where "i = length (takeWhile (\<lambda>p. \<not> matches M k h p) c)"
  have b: "b < length (ht_list t)" unfolding b_def using ok by (rule table_ok_bucket)
  have fp: "FindPointer M t k h = Some (b, i)"
    unfolding b_def c_def i_def by (rule FindPointer_ok [OF ok])
  from l have sl: "slot t (b, i) = Some p" by (simp add: HT_Lookup_def fp)
  then have i: "i < length c" and p: "c ! i = p"
    by (auto simp: slot_def Let_def c_def split: if_splits)
  have rm: "HT_Remove M t k h = Some (Some p,
      t\<lparr>ht_list := (ht_list t)[b := take i c @ drop (Suc i) c], ht_elems := ht_elems t - 1\<rparr>)"
    using i p by (simp add: HT_Remove_def fp slot_def Let_def c_def)
  have dc: "distinct c" unfolding c_def using ok b by (rule chain_distinct)
  have pc: "p \<in> set (ht_list t ! b)" using i p by (auto simp: c_def)
  have "(ht_list t)[b := take i c @ drop (Suc i) c] = map (filter (\<lambda>q. q \<noteq> p)) (ht_list t)"
  proof (rule nth_equalityI)
    show "length ((ht_list t)[b := take i c @ drop (Suc i) c]) =
        length (map (filter (\<lambda>q. q \<noteq> p)) (ht_list t))"
      by simp
  next
    fix j assume "j < length ((ht_list t)[b := take i c @ drop (Suc i) c])"
    then have j: "j < length (ht_list t)" by simp
    show "(ht_list t)[b := take i c @ drop (Suc i) c] ! j =
        map (filter (\<lambda>q. q \<noteq> p)) (ht_list t) ! j"
    proof (cases "j = b")
      case True
      with b filter_remove_nth [OF dc i] p show ?thesis by (simp add: c_def)
    next
      case False
      have "p \<notin> set (ht_list t ! j)"
      proof
        assume "p \<in> set (ht_list t ! j)"
        from table_ok_place [OF ok j this] table_ok_place [OF ok b pc] False
        show False by auto
      qed
      then have "filter (\<lambda>q. q \<noteq> p) (ht_list t ! j) = ht_list t ! j"
        by (auto simp: filter_id_conv)
      with False j show ?thesis by simp
    qed
  qed
  with rm show ?thesis by simp
qed

lemma evict_oldest_exact:
  assumes inv: "shard_inv_ex {} s" and l: "lru s = old # rest"
  shows "\<exists>e s'. mem s old = Some e \<and> evict_oldest s = Some s' \<and> lru s' = rest \<and>
    in_use s' = in_use s \<and> mem s' = (mem s)(old := None) \<and>
    deleted s' = deleted s @ [(old, deleter e, key_data e, val e)] \<and>
    usage s' = usage s - charge e \<and> capacity s' = capacity s \<and> brk s' = brk s \<and>
    ht_length (table s') = ht_length (table s) \<and>
    ht_elems (table s') = ht_elems (table s) - 1 \<and>
    ht_list (table s') = map (filter (\<lambda>q. q \<noteq> old)) (ht_list (table s))"
proof -
  have ol: "old \<in> set (lru s)" using l by simp
  from inv_lru_refs [OF inv ol] obtain e where e: "mem s old = Some e" and r1: "refs e = 1"
    by blast
  from inv_cached [OF inv, of old] ol e have c: "in_cache e" by auto
  have om: "old \<in> members (table s)" using inv_members [OF inv] ol by simp
  have "matches (mem s) (key_data e) (hash e) old" using e by (simp add: matches_def)
  with om have lk: "HT_Lookup (mem s) (table s) (key_data e) (hash e) = Some (Some old)"
    using HT_Lookup_Some_iff [OF inv_table_ok [OF inv]] by simp
  define t where "t = (table s)\<lparr>ht_list := map (filter (\<lambda>q. q \<noteq> old)) (ht_list (table s)),
      ht_elems := ht_elems (table s) - 1\<rparr>"
  have rm: "HT_Remove (mem s) (table s) (key_data e) (hash e) = Some (Some old, t)"
    unfolding t_def using inv_table_ok [OF inv] lk by (rule HT_Remove_found)
  have inv1: "shard_inv_ex {old} (s\<lparr>table := t\<rparr>)"
    using inv_table_remove(1) [OF inv rm] by simp
  have e1: "mem (s\<lparr>table := t\<rparr>) old = Some e" using e by simp
  have nu: "old \<notin> set (in_use s)" using inv_distinct [OF inv] ol by auto
  then have ru: "remove1 old (in_use s) = in_use s" by (rule remove1_idem)
  let ?s' = "s\<lparr>table := t, lru := rest, mem := (mem s)(old := None),
      usage := usage s - charge e,
      deleted := deleted s @ [(old, deleter e, key_data e, val e)]\<rparr>"
  have "FinishErase (Some old) (s\<lparr>table := t\<rparr>) = Some (True, ?s')"
    unfolding FinishErase_unfold [OF inv1 e1 c]
    using l ru r1 by (simp add: Unref_def assert_def Let_def)
  with e r1 rm l have "evict_oldest s = Some ?s'"
    by (simp add: evict_oldest_def assert_def)
  with e show ?thesis by (simp add: t_def)
qed

lemma Prune_exact:
  assumes "shard_inv_ex {} s"
  shows "\<exists>s'. Prune s = Some s' \<and> lru s' = [] \<and> in_use s' = in_use s \<and>
    (\<forall>p. mem s' p = (if p \<in> set (lru s) then None else mem s p)) \<and>
    deleted s' = deleted s @ concat (map (call_of (mem s)) (lru s)) \<and>
    usage s' = usage s - sum_list (map (charge_at (mem s)) (lru s)) \<and>
    capacity s' = capacity s \<and> brk s' = brk s \<and>
    ht_length (table s') = ht_length (table s) \<and>
    ht_elems (table s') = ht_elems (table s) - of_nat (length (lru s)) \<and>
    ht_list (table s') = map (filter (\<lambda>q. q \<notin> set (lru s))) (ht_list (table s))"
  using assms
proof (induction s rule: Prune.induct)
  case (1 s)
  show ?case
  proof (cases "lru s")
    case Nil
    then have "Prune s = Some s" by (subst Prune.simps) simp
    with Nil show ?thesis by (simp add: map_idI)
  next
    case (Cons old rest)
    from evict_oldest_exact [OF "1.prems" Cons] obtain e s1 where
      e: "mem s old = Some e" and ev: "evict_oldest s = Some s1" and
      s1: "lru s1 = rest" "in_use s1 = in_use s" "mem s1 = (mem s)(old := None)"
        "deleted s1 = deleted s @ [(old, deleter e, key_data e, val e)]"
        "usage s1 = usage s - charge e" "capacity s1 = capacity s" "brk s1 = brk s"
        "ht_length (table s1) = ht_length (table s)"
        "ht_elems (table s1) = ht_elems (table s) - 1"
        "ht_list (table s1) = map (filter (\<lambda>q. q \<noteq> old)) (ht_list (table s))"
      by blast
    have ne: "lru s \<noteq> []" using Cons by simp
    have inv1: "shard_inv_ex {} s1" using "1.prems" ev by (rule evict_oldest_inv)
    from "1.IH" [OF ne ev inv1] obtain s' where
      p: "Prune s1 = Some s'" and
      s': "lru s' = []" "in_use s' = in_use s1"
        "\<forall>p. mem s' p = (if p \<in> set (lru s1) then None else mem s1 p)"
        "deleted s' = deleted s1 @ concat (map (call_of (mem s1)) (lru s1))"
        "usage s' = usage s1 - sum_list (map (charge_at (mem s1)) (lru s1))"
        "capacity s' = capacity s1" "brk s' = brk s1"
        "ht_length (table s') = ht_length (table s1)"
        "ht_elems (table s') = ht_elems (table s1) - of_nat (length (lru s1))"
        "ht_list (table s') = map (filter (\<lambda>q. q \<notin> set (lru s1))) (ht_list (table s1))"
      by blast
    have pr: "Prune s = Some s'"
      using ne ev p by (subst Prune.simps) simp
    have nr: "old \<notin> set rest" using inv_distinct [OF "1.prems"] Cons by simp
    then have "map (call_of (mem s1)) rest = map (call_of (mem s)) rest"
      by (auto simp: call_of_def s1(3))
    then have "concat (map (call_of (mem s1)) rest) = concat (map (call_of (mem s)) rest)"
      by (rule arg_cong)
    with s'(4) s1(1,4) e Cons have "deleted s' = deleted s @ concat (map (call_of (mem s)) (lru s))"
      by (simp add: call_of_def)
    moreover have "\<forall>p. mem s' p = (if p \<in> set (lru s) then None else mem s p)"
      using s'(3) s1 Cons by auto
    moreover have "usage s' = usage s - sum_list (map (charge_at (mem s)) (lru s))"
    proof -
      have "sum_list (map (charge_at (mem s1)) rest) = sum_list (map (charge_at (mem s)) rest)"
        using nr by (intro sum_charge_cong) (auto simp: s1(3))
      with s'(5) s1(1,5) e Cons show ?thesis by (simp add: charge_at_def)
    qed
    moreover have "ht_elems (table s') = ht_elems (table s) - of_nat (length (lru s))"
      using s'(9) s1(1,9) Cons by simp
    moreover have "ht_list (table s') =
        map (filter (\<lambda>q. q \<notin> set (lru s))) (ht_list (table s))"
    proof -
      have "\<And>c. filter (\<lambda>q. q \<notin> set rest) (filter (\<lambda>q. q \<noteq> old) c) =
          filter (\<lambda>q. q \<notin> set (old # rest)) c"
        by (auto intro: filter_cong)
      then show ?thesis using s'(10) s1(1,10) Cons by (simp add: comp_def)
    qed
    ultimately show ?thesis using pr s'(1,2,6,7,8) s1(2,6,7,8) by simp
  qed
qed

lemma Ref_returns:
  assumes inv: "shard_inv_ex {} s" and e: "mem s p = Some e"
  shows "\<exists>s'. Ref p s = Some s'"
proof (cases "refs e = 1 \<and> in_cache e")
  case True
  with inv_move [OF inv e, of IN_USE] obtain s1 where "LRU_Remove p s = Some s1" by auto
  with e True show ?thesis by (simp add: Ref_def)
next
  case False
  with e show ?thesis by (auto simp: Ref_def)
qed

lemma Lookup_hit:
  assumes inv: "shard_inv_ex {} s" and p: "p \<in> set (lru s @ in_use s)"
    and e: "mem s p = Some e"
  shows "\<exists>s'. Lookup (key_data e) (hash e) s = Some (Some p, s')"
proof -
  have "p \<in> members (table s)" using inv_members [OF inv] p by simp
  moreover have "matches (mem s) (key_data e) (hash e) p" using e by (simp add: matches_def)
  ultimately have "HT_Lookup (mem s) (table s) (key_data e) (hash e) = Some (Some p)"
    using HT_Lookup_Some_iff [OF inv_table_ok [OF inv]] by simp
  with Ref_returns [OF inv e] show ?thesis by (auto simp: Lookup_def)
qed

text \<open>
  Claim C9.  In every reachable state \<open>Prune\<close> returns.  Afterwards the LRU list is empty
  and every record that was on it has been freed, its deleter called in the order of the
  list, oldest first; \<open>usage\<close> has gone down by the charges of those records, and the
  table has lost exactly them: every chain is the old chain without the pruned entries,
  \<open>elems\<close> has gone down by their number, the table's length is as before, and a
  \<open>Lookup\<close> with the key and hash of a pruned entry misses.  The in-use list, every
  record not on the LRU list, the capacity and the allocator are exactly as before, the
  table holds exactly the in-use entries, and a \<open>Lookup\<close> with the key and hash of any
  in-use entry finds that entry.
\<close>

theorem Prune_empties_lru:
  assumes r: "reachable c s"
  shows "\<exists>s'. Prune s = Some s' \<and> lru s' = [] \<and> in_use s' = in_use s \<and>
    (\<forall>p. mem s' p = (if p \<in> set (lru s) then None else mem s p)) \<and>
    deleted s' = deleted s @ concat (map (call_of (mem s)) (lru s)) \<and>
    usage s' = usage s - sum_list (map (charge_at (mem s)) (lru s)) \<and>
    capacity s' = capacity s \<and> brk s' = brk s \<and>
    ht_length (table s') = ht_length (table s) \<and>
    ht_elems (table s') = ht_elems (table s) - of_nat (length (lru s)) \<and>
    ht_list (table s') = map (filter (\<lambda>q. q \<notin> set (lru s))) (ht_list (table s)) \<and>
    members (table s') = set (in_use s) \<and>
    (\<forall>p \<in> set (in_use s). \<exists>e s''. mem s p = Some e \<and>
       Lookup (key_data e) (hash e) s' = Some (Some p, s'')) \<and>
    (\<forall>p \<in> set (lru s). \<exists>e. mem s p = Some e \<and>
       Lookup (key_data e) (hash e) s' = Some (None, s'))"
proof -
  from r have inv: "shard_inv_ex {} s" by (rule reachable_inv)
  from Prune_exact [OF inv] obtain s' where
    p: "Prune s = Some s'" and
    s': "lru s' = []" "in_use s' = in_use s"
      "\<forall>p. mem s' p = (if p \<in> set (lru s) then None else mem s p)"
      "deleted s' = deleted s @ concat (map (call_of (mem s)) (lru s))"
      "usage s' = usage s - sum_list (map (charge_at (mem s)) (lru s))"
      "capacity s' = capacity s" "brk s' = brk s"
      "ht_length (table s') = ht_length (table s)"
      "ht_elems (table s') = ht_elems (table s) - of_nat (length (lru s))"
      "ht_list (table s') = map (filter (\<lambda>q. q \<notin> set (lru s))) (ht_list (table s))"
    by blast
  have inv': "shard_inv_ex {} s'" using inv p by (rule Prune_inv)
  have m': "members (table s') = set (in_use s)"
    using inv_members [OF inv'] s'(1,2) by simp
  have hit: "\<forall>p \<in> set (in_use s). \<exists>e s''. mem s p = Some e \<and>
       Lookup (key_data e) (hash e) s' = Some (Some p, s'')"
  proof
    fix p assume pu: "p \<in> set (in_use s)"
    with inv_cached [OF inv, of p] obtain e where e: "mem s p = Some e" by auto
    from pu inv_distinct [OF inv] have "p \<notin> set (lru s)" by auto
    with s'(3) e have e': "mem s' p = Some e" by simp
    from pu s'(1,2) have "p \<in> set (lru s' @ in_use s')" by simp
    from Lookup_hit [OF inv' this e'] e
    show "\<exists>e s''. mem s p = Some e \<and> Lookup (key_data e) (hash e) s' = Some (Some p, s'')"
      by blast
  qed
  have miss: "\<forall>p \<in> set (lru s). \<exists>e. mem s p = Some e \<and>
       Lookup (key_data e) (hash e) s' = Some (None, s')"
  proof
    fix p assume pl: "p \<in> set (lru s)"
    with inv_cached [OF inv, of p] obtain e where e: "mem s p = Some e" by auto
    have pm: "p \<in> members (table s)" using inv_members [OF inv] pl by simp
    have mp: "matches (mem s) (key_data e) (hash e) p" using e by (simp add: matches_def)
    have "\<forall>q \<in> members (table s'). \<not> matches (mem s') (key_data e) (hash e) q"
    proof
      fix q assume "q \<in> members (table s')"
      with m' have qu: "q \<in> set (in_use s)" by simp
      then have ql: "q \<notin> set (lru s)" using inv_distinct [OF inv] by auto
      have qm: "q \<in> members (table s)" using inv_members [OF inv] qu by simp
      show "\<not> matches (mem s') (key_data e) (hash e) q"
      proof
        assume "matches (mem s') (key_data e) (hash e) q"
        with s'(3) ql have "matches (mem s) (key_data e) (hash e) q"
          by (simp add: matches_def)
        from matches_unique [OF inv_table_ok [OF inv] pm qm mp this] pl ql
        show False by simp
      qed
    qed
    then have "HT_Lookup (mem s') (table s') (key_data e) (hash e) = Some None"
      using HT_Lookup_None_iff [OF inv_table_ok [OF inv']] by simp
    then have "Lookup (key_data e) (hash e) s' = Some (None, s')"
      by (simp add: Lookup_def)
    with e show "\<exists>e. mem s p = Some e \<and> Lookup (key_data e) (hash e) s' = Some (None, s')"
      by blast
  qed
  from p s' m' hit miss show ?thesis by blast
qed

definition one_pinned :: LRUCache where
  "one_pinned =
     \<lparr>capacity = 10, usage = 12, lru = [1], in_use = [0],
      table = \<lparr>ht_length = 4, ht_elems = 2, ht_list = [[], [0], [1], []]\<rparr>,
      mem = [0 \<mapsto> \<lparr>val = 100, deleter = 0, charge = 6, in_cache = True, refs = 2,
                      hash = 1, key_data = ''a''\<rparr>,
             1 \<mapsto> \<lparr>val = 200, deleter = 0, charge = 6, in_cache = True, refs = 1,
                      hash = 2, key_data = ''b''\<rparr>],
      brk = 2, deleted = []\<rparr>"

lemma reachable_one_pinned: "reachable 10 one_pinned"
  by (rule reachable_step [OF reachable_pinned_pair, of "OpRelease 1"])
    (simp add: eval_defs pinned_pair_def one_pinned_def)

definition pruned_one :: LRUCache where
  "pruned_one =
     \<lparr>capacity = 10, usage = 6, lru = [], in_use = [0],
      table = \<lparr>ht_length = 4, ht_elems = 1, ht_list = [[], [0], [], []]\<rparr>,
      mem = [0 \<mapsto> \<lparr>val = 100, deleter = 0, charge = 6, in_cache = True, refs = 2,
                      hash = 1, key_data = ''a''\<rparr>],
      brk = 2, deleted = [(1, 0, ''b'', 200)]\<rparr>"

lemma Prune_one_pinned: "Prune one_pinned = Some pruned_one"
proof -
  have ev: "evict_oldest one_pinned = Some pruned_one"
    by (simp add: eval_defs one_pinned_def pruned_one_def)
  have fin: "Prune pruned_one = Some pruned_one"
    by (subst Prune.simps) (simp add: pruned_one_def)
  have "lru one_pinned \<noteq> []" by (simp add: one_pinned_def)
  then show ?thesis by (subst Prune.simps) (simp add: ev fin)
qed

theorem Prune_empties_lru_witness:
  "reachable 10 one_pinned \<and> Prune one_pinned = Some pruned_one \<and>
   usage pruned_one = 6 \<and> ht_elems (table pruned_one) = 1 \<and>
   ht_list (table pruned_one) = [[], [0], [], []] \<and>
   deleted pruned_one = [(1, 0, ''b'', 200)] \<and>
   map_option fst (Lookup ''a'' 1 pruned_one) = Some (Some 0) \<and>
   Lookup ''b'' 2 pruned_one = Some (None, pruned_one)"
proof -
  from Prune_empties_lru [OF reachable_one_pinned] obtain s' where
    p: "Prune one_pinned = Some s'" and
    s': "usage s' = usage one_pinned -
           sum_list (map (charge_at (mem one_pinned)) (lru one_pinned))"
      "ht_elems (table s') = ht_elems (table one_pinned) - of_nat (length (lru one_pinned))"
      "ht_list (table s') =
         map (filter (\<lambda>q. q \<notin> set (lru one_pinned))) (ht_list (table one_pinned))"
      "deleted s' = deleted one_pinned @
         concat (map (call_of (mem one_pinned)) (lru one_pinned))" and
    hit: "\<forall>p \<in> set (in_use one_pinned). \<exists>e s''. mem one_pinned p = Some e \<and>
       Lookup (key_data e) (hash e) s' = Some (Some p, s'')" and
    miss: "\<forall>p \<in> set (lru one_pinned). \<exists>e. mem one_pinned p = Some e \<and>
       Lookup (key_data e) (hash e) s' = Some (None, s')"
    by blast
  from p have eq: "s' = pruned_one" by (simp add: Prune_one_pinned)
  from hit have "\<exists>s''. Lookup ''a'' 1 s' = Some (Some 0, s'')"
    by (simp add: one_pinned_def)
  moreover from miss have "Lookup ''b'' 2 s' = Some (None, s')"
    by (simp add: one_pinned_def)
  ultimately show ?thesis using s' reachable_one_pinned Prune_one_pinned
    unfolding eq by (auto simp: one_pinned_def call_of_def charge_at_def)
qed


section \<open>The records and the deleter calls along a run\<close>

text \<open>
  \<open>evolves s s'\<close> says how the records and the log of deleter calls may change in a
  step that allocates nothing: a free address stays free and gets no call; an allocated
  record keeps its value, deleter, charge, hash and key and gets no call, or it is freed
  and gets exactly the call with its own key and value.
\<close>

definition calls_for :: "addr \<Rightarrow> LRUCache \<Rightarrow> (addr \<times> nat \<times> Slice \<times> nat) list" where
  "calls_for p s = filter (\<lambda>c. fst c = p) (deleted s)"

definition same_entry :: "LRUHandle \<Rightarrow> LRUHandle \<Rightarrow> bool" where
  "same_entry e e' \<longleftrightarrow>
     val e' = val e \<and> deleter e' = deleter e \<and> charge e' = charge e \<and>
     hash e' = hash e \<and> key_data e' = key_data e"

definition evolves :: "LRUCache \<Rightarrow> LRUCache \<Rightarrow> bool" where
  "evolves s s' \<longleftrightarrow>
     brk s' = brk s \<and> capacity s' = capacity s \<and>
     (\<forall>p. case mem s p of
        None \<Rightarrow> mem s' p = None \<and> calls_for p s' = calls_for p s
      | Some e \<Rightarrow>
          (\<exists>e'. mem s' p = Some e' \<and> same_entry e e' \<and> calls_for p s' = calls_for p s) \<or>
          (mem s' p = None \<and>
           calls_for p s' = calls_for p s @ [(p, deleter e, key_data e, val e)]))"

lemma same_entry_refl [simp]: "same_entry e e"
  by (simp add: same_entry_def)

lemma same_entry_trans: "same_entry e e' \<Longrightarrow> same_entry e' e'' \<Longrightarrow> same_entry e e''"
  by (simp add: same_entry_def)

lemma evolves_refl [simp]: "evolves s s"
  by (auto simp: evolves_def split: option.splits)

lemma evolves_trans:
  assumes a: "evolves s s'" and b: "evolves s' s''"
  shows "evolves s s''"
proof -
  have "\<And>p. case mem s p of
        None \<Rightarrow> mem s'' p = None \<and> calls_for p s'' = calls_for p s
      | Some e \<Rightarrow>
          (\<exists>e'. mem s'' p = Some e' \<and> same_entry e e' \<and> calls_for p s'' = calls_for p s) \<or>
          (mem s'' p = None \<and>
           calls_for p s'' = calls_for p s @ [(p, deleter e, key_data e, val e)])"
  proof -
    fix p
    from a have A: "case mem s p of
        None \<Rightarrow> mem s' p = None \<and> calls_for p s' = calls_for p s
      | Some e \<Rightarrow>
          (\<exists>e'. mem s' p = Some e' \<and> same_entry e e' \<and> calls_for p s' = calls_for p s) \<or>
          (mem s' p = None \<and>
           calls_for p s' = calls_for p s @ [(p, deleter e, key_data e, val e)])"
      unfolding evolves_def by blast
    from b have B: "case mem s' p of
        None \<Rightarrow> mem s'' p = None \<and> calls_for p s'' = calls_for p s'
      | Some e \<Rightarrow>
          (\<exists>e'. mem s'' p = Some e' \<and> same_entry e e' \<and> calls_for p s'' = calls_for p s') \<or>
          (mem s'' p = None \<and>
           calls_for p s'' = calls_for p s' @ [(p, deleter e, key_data e, val e)])"
      unfolding evolves_def by blast
    from A B show "case mem s p of
        None \<Rightarrow> mem s'' p = None \<and> calls_for p s'' = calls_for p s
      | Some e \<Rightarrow>
          (\<exists>e'. mem s'' p = Some e' \<and> same_entry e e' \<and> calls_for p s'' = calls_for p s) \<or>
          (mem s'' p = None \<and>
           calls_for p s'' = calls_for p s @ [(p, deleter e, key_data e, val e)])"
      by (auto simp: same_entry_def split: option.splits)
  qed
  with a b show ?thesis unfolding evolves_def by simp
qed

lemma evolves_same:
  "mem s' = mem s \<Longrightarrow> deleted s' = deleted s \<Longrightarrow> brk s' = brk s \<Longrightarrow>
   capacity s' = capacity s \<Longrightarrow> evolves s s'"
  by (auto simp: evolves_def calls_for_def split: option.splits)

lemma evolves_upd:
  "mem s p = Some e \<Longrightarrow> same_entry e e' \<Longrightarrow> mem s' = (mem s)(p \<mapsto> e') \<Longrightarrow>
   deleted s' = deleted s \<Longrightarrow> brk s' = brk s \<Longrightarrow> capacity s' = capacity s \<Longrightarrow>
   evolves s s'"
  by (auto simp: evolves_def calls_for_def split: option.splits)

lemma evolves_free:
  "mem s p = Some e \<Longrightarrow> mem s' = (mem s)(p := None) \<Longrightarrow>
   deleted s' = deleted s @ [(p, deleter e, key_data e, val e)] \<Longrightarrow> brk s' = brk s \<Longrightarrow>
   capacity s' = capacity s \<Longrightarrow> evolves s s'"
  by (auto simp: evolves_def calls_for_def split: option.splits)

lemma LRU_Remove_evolves: "LRU_Remove p s = Some s' \<Longrightarrow> evolves s s'"
  by (auto simp: LRU_Remove_def split: if_splits intro!: evolves_same)

lemma LRU_Append_evolves: "evolves s (LRU_Append l p s)"
  by (auto simp: LRU_Append_def split: list_head.splits intro!: evolves_same)

lemma Ref_evolves:
  assumes "Ref p s = Some s'"
  shows "evolves s s'"
proof -
  from assms obtain e s1 where e: "mem s p = Some e"
    and s1: "(if refs e = 1 \<and> in_cache e
              then map_option (LRU_Append IN_USE p) (LRU_Remove p s) else Some s) = Some s1"
    and s': "s' = s1\<lparr>mem := (mem s1)(p \<mapsto> e\<lparr>refs := refs e + 1\<rparr>)\<rparr>"
    by (auto simp: Ref_def split: bind_splits)
  from s1 have "mem s1 = mem s \<and> deleted s1 = deleted s \<and> brk s1 = brk s \<and>
      capacity s1 = capacity s"
    by (auto simp: LRU_Remove_def LRU_Append_def split: if_splits)
  with e s' show ?thesis
    by (intro evolves_upd [of s p e "e\<lparr>refs := refs e + 1\<rparr>"]) (auto simp: same_entry_def)
qed

lemma Unref_evolves:
  assumes "Unref p s = Some s'"
  shows "evolves s s'"
proof -
  from assms obtain e where e: "mem s p = Some e"
    by (auto simp: Unref_def split: bind_splits)
  show ?thesis
  proof (cases "refs e - 1 = 0")
    case True
    with assms e show ?thesis
      by (intro evolves_free [of s p e])
        (auto simp: Unref_def assert_def Let_def split: if_splits)
  next
    case False
    with assms e show ?thesis
      by (intro evolves_upd [of s p e "e\<lparr>refs := refs e - 1\<rparr>"])
        (auto simp: Unref_def assert_def Let_def LRU_Remove_def LRU_Append_def same_entry_def
          split: if_splits)
  qed
qed

lemma FinishErase_evolves:
  assumes "FinishErase r s = Some (b, s')"
  shows "evolves s s'"
proof (cases r)
  case None
  with assms show ?thesis by (simp add: FinishErase_def)
next
  case (Some p)
  with assms obtain e s1 where e: "mem s p = Some e" and s1: "LRU_Remove p s = Some s1"
    and u: "Unref p (s1\<lparr>mem := (mem s1)(p \<mapsto> e\<lparr>in_cache := False\<rparr>),
                        usage := usage s1 - charge e\<rparr>) = Some s'"
    by (auto simp: FinishErase_def assert_def Let_def split: bind_splits if_splits)
  from s1 have "mem s1 = mem s \<and> deleted s1 = deleted s \<and> brk s1 = brk s \<and>
      capacity s1 = capacity s"
    by (auto simp: LRU_Remove_def split: if_splits)
  with e have "evolves s (s1\<lparr>mem := (mem s1)(p \<mapsto> e\<lparr>in_cache := False\<rparr>),
                        usage := usage s1 - charge e\<rparr>)"
    by (intro evolves_upd [of s p e "e\<lparr>in_cache := False\<rparr>"]) (auto simp: same_entry_def)
  then show ?thesis using Unref_evolves [OF u] by (rule evolves_trans)
qed

lemma evolves_table: "evolves s (s\<lparr>table := t\<rparr>)"
  by (rule evolves_same) simp_all

lemma Erase_evolves:
  assumes "Erase k h s = Some s'"
  shows "evolves s s'"
proof -
  from assms obtain r t b where "FinishErase r (s\<lparr>table := t\<rparr>) = Some (b, s')"
    by (auto simp: Erase_def split: bind_splits)
  from evolves_table FinishErase_evolves [OF this] show ?thesis by (rule evolves_trans)
qed

lemma evict_oldest_evolves:
  assumes "evict_oldest s = Some s'"
  shows "evolves s s'"
proof -
  from assms obtain r t b where "FinishErase r (s\<lparr>table := t\<rparr>) = Some (b, s')"
    by (auto simp: evict_oldest_def split: list.splits bind_splits)
  from evolves_table FinishErase_evolves [OF this] show ?thesis by (rule evolves_trans)
qed

lemma Insert_loop_evolves: "Insert_loop s = Some s' \<Longrightarrow> evolves s s'"
proof (induction s rule: Insert_loop.induct)
  case (1 s)
  show ?case
  proof (cases "usage s > capacity s \<and> lru s \<noteq> []")
    case True
    with "1.prems" obtain s1 where s1: "evict_oldest s = Some s1" "Insert_loop s1 = Some s'"
      by (subst (asm) Insert_loop.simps) (auto split: option.splits)
    from evict_oldest_evolves [OF s1(1)] "1.IH" [OF True s1] show ?thesis
      by (rule evolves_trans)
  next
    case False
    with "1.prems" have "s' = s"
      by (subst (asm) Insert_loop.simps) auto
    then show ?thesis by simp
  qed
qed

lemma Prune_evolves: "Prune s = Some s' \<Longrightarrow> evolves s s'"
proof (induction s rule: Prune.induct)
  case (1 s)
  show ?case
  proof (cases "lru s \<noteq> []")
    case True
    with "1.prems" obtain s1 where s1: "evict_oldest s = Some s1" "Prune s1 = Some s'"
      by (subst (asm) Prune.simps) (auto split: option.splits)
    from evict_oldest_evolves [OF s1(1)] "1.IH" [OF True s1] show ?thesis
      by (rule evolves_trans)
  next
    case False
    with "1.prems" have "s' = s"
      by (subst (asm) Prune.simps) auto
    then show ?thesis by simp
  qed
qed

lemma Lookup_evolves: "Lookup k h s = Some (r, s') \<Longrightarrow> evolves s s'"
  by (auto simp: Lookup_def split: bind_splits option.splits intro: Ref_evolves)

text \<open>\<open>Insert\<close> first allocates the record (\<open>malloc\<close> and the assignments up to
  \<open>e->refs = 1\<close>); the rest of the call changes records as the other operations do.\<close>

definition allocated :: "Slice \<Rightarrow> uint32_t \<Rightarrow> nat \<Rightarrow> size_t \<Rightarrow> nat \<Rightarrow> LRUCache \<Rightarrow> LRUCache" where
  "allocated k h v c d s =
     s\<lparr>mem := (mem s)(brk s \<mapsto> \<lparr>val = v, deleter = d, charge = c, in_cache = False,
          refs = 1, hash = h, key_data = k\<rparr>), brk := Suc (brk s)\<rparr>"

lemma Insert_evolves:
  assumes ins: "Insert k h v c d s = Some (p, s')"
  shows "p = brk s" and "evolves (allocated k h v c d s) s'"
proof -
  let ?e = "\<lparr>val = v, deleter = d, charge = c, in_cache = True, refs = 2,
     hash = h, key_data = k\<rparr>"
  let ?f = "\<lparr>val = v, deleter = d, charge = c, in_cache = False,
     refs = 1, hash = h, key_data = k\<rparr>"
  let ?s2 = "s\<lparr>mem := (mem s)(brk s \<mapsto> ?e), brk := Suc (brk s),
     in_use := in_use s @ [brk s], usage := usage s + c\<rparr>"
  from ins show "p = brk s"
    unfolding Insert_unfold by (auto simp: Let_def split: bind_splits)
  show "evolves (allocated k h v c d s) s'"
  proof (cases "capacity s > 0")
    case False
    with ins have "Insert_loop (allocated k h v c d s) = Some s'"
      unfolding Insert_unfold by (auto simp: Let_def allocated_def split: bind_splits)
    then show ?thesis by (rule Insert_loop_evolves)
  next
    case True
    with ins obtain old t b s1 where
      fe: "FinishErase old (?s2\<lparr>table := t\<rparr>) = Some (b, s1)"
      and loop: "Insert_loop s1 = Some s'"
      unfolding Insert_unfold by (auto simp: Let_def split: bind_splits)
    have "evolves (allocated k h v c d s) (?s2\<lparr>table := t\<rparr>)"
      by (rule evolves_upd [of _ "brk s" ?f ?e]) (auto simp: allocated_def same_entry_def)
    from this FinishErase_evolves [OF fe] have "evolves (allocated k h v c d s) s1"
      by (rule evolves_trans)
    from this Insert_loop_evolves [OF loop] show ?thesis by (rule evolves_trans)
  qed
qed


lemma apply_op_evolves:
  assumes "apply_op x s = Some s'"
  shows "evolves s s' \<or> (\<exists>k h v c d. evolves (allocated k h v c d s) s')"
proof (cases x)
  case (OpInsert k h v c d)
  with assms obtain p where "Insert k h v c d s = Some (p, s')" by auto
  from Insert_evolves(2) [OF this] show ?thesis by blast
next
  case (OpLookup k h)
  with assms show ?thesis by (auto intro: Lookup_evolves)
next
  case (OpRelease p)
  with assms show ?thesis by (auto simp: Release_def intro: Unref_evolves)
next
  case (OpErase k h)
  with assms show ?thesis by (auto intro: Erase_evolves)
next
  case OpPrune
  with assms show ?thesis by (auto intro: Prune_evolves)
qed

lemma run_reachable: "reachable c s \<Longrightarrow> run ops s = Some s' \<Longrightarrow> reachable c s'"
proof (induction ops arbitrary: s)
  case Nil
  then show ?case by simp
next
  case (Cons x xs)
  from Cons.prems(2) obtain s1 where s1: "apply_op x s = Some s1" "run xs s1 = Some s'"
    by (auto split: option.splits)
  from Cons.prems(1) s1(1) have "reachable c s1" by (rule reachable_step)
  then show ?case using s1(2) by (rule Cons.IH)
qed



lemma calls_for_allocated [simp]: "calls_for q (allocated k h v c d s) = calls_for q s"
  by (simp add: calls_for_def allocated_def)

lemma mem_allocated [simp]:
  "mem (allocated k h v c d s) =
   (mem s)(brk s \<mapsto> \<lparr>val = v, deleter = d, charge = c, in_cache = False, refs = 1,
      hash = h, key_data = k\<rparr>)"
  by (simp add: allocated_def)

lemma brk_allocated [simp]: "brk (allocated k h v c d s) = Suc (brk s)"
  by (simp add: allocated_def)













section \<open>Erase\<close>

lemma evolves_matches:
  assumes "evolves s s'" and "matches (mem s') k h q"
  shows "matches (mem s) k h q"
proof -
  from assms(1) have "case mem s q of
        None \<Rightarrow> mem s' q = None \<and> calls_for q s' = calls_for q s
      | Some e \<Rightarrow>
          (\<exists>e'. mem s' q = Some e' \<and> same_entry e e' \<and> calls_for q s' = calls_for q s) \<or>
          (mem s' q = None \<and>
           calls_for q s' = calls_for q s @ [(q, deleter e, key_data e, val e)])"
    unfolding evolves_def by blast
  with assms(2) show ?thesis
    by (auto simp: matches_def same_entry_def split: option.splits)
qed

lemma Erase_members:
  assumes inv: "shard_inv_ex {} s" and er: "Erase k h s = Some s'"
  shows "\<exists>r. HT_Lookup (mem s) (table s) k h = Some r \<and>
    members (table s') = members (table s) - set_option r"
proof -
  from er obtain r t b where rm: "HT_Remove (mem s) (table s) k h = Some (r, t)"
    and fe: "FinishErase r (s\<lparr>table := t\<rparr>) = Some (b, s')"
    by (auto simp: Erase_def split: bind_splits)
  from HT_Remove_ok [OF inv_table_ok [OF inv], of k h] rm
  have "HT_Lookup (mem s) (table s) k h = Some r"
    and "members t = members (table s) - set_option r"
    by auto
  moreover from FinishErase_table [OF fe] have "table s' = t" by simp
  ultimately show ?thesis by simp
qed

lemma Erase_miss:
  assumes inv: "shard_inv_ex {} s" and l: "HT_Lookup (mem s) (table s) k h = Some None"
  shows "Erase k h s = Some s"
proof -
  from HT_Remove_ok [OF inv_table_ok [OF inv], of k h] l
  have "HT_Remove (mem s) (table s) k h = Some (None, table s)" by auto
  then show ?thesis by (simp add: Erase_def FinishErase_def)
qed

lemma Erase_then_miss:
  assumes r: "reachable c s" and er: "Erase k h s = Some s'"
  shows "HT_Lookup (mem s') (table s') k h = Some None"
proof -
  from r have inv: "shard_inv_ex {} s" by (rule reachable_inv)
  from inv er have inv': "shard_inv_ex {} s'" by (rule Erase_inv)
  from Erase_members [OF inv er] obtain r where
    l: "HT_Lookup (mem s) (table s) k h = Some r" and
    m: "members (table s') = members (table s) - set_option r"
    by blast
  have "\<forall>q \<in> members (table s'). \<not> matches (mem s') k h q"
  proof (intro ballI notI)
    fix q assume q: "q \<in> members (table s')" and mq: "matches (mem s') k h q"
    from evolves_matches [OF Erase_evolves [OF er] mq] have "matches (mem s) k h q" .
    moreover from q m have "q \<in> members (table s)" by simp
    ultimately have "HT_Lookup (mem s) (table s) k h = Some (Some q)"
      using HT_Lookup_Some_iff [OF inv_table_ok [OF inv]] by simp
    with l have "r = Some q" by simp
    with q m show False by simp
  qed
  then show ?thesis using HT_Lookup_None_iff [OF inv_table_ok [OF inv']] by simp
qed

lemma Lookup_miss_iff:
  "map_option fst (Lookup k h s) = Some None \<longleftrightarrow>
   HT_Lookup (mem s) (table s) k h = Some None"
  by (auto simp: Lookup_def split: bind_splits option.splits)

lemma Erase_returns:
  assumes inv: "shard_inv_ex {} s"
    and nz: "\<forall>p e. HT_Lookup (mem s) (table s) k h = Some (Some p) \<longrightarrow> mem s p = Some e
               \<longrightarrow> refs e \<noteq> 0"
  shows "\<exists>s'. Erase k h s = Some s'"
proof -
  from HT_Remove_ok [OF inv_table_ok [OF inv], of k h] obtain r t where
    rm: "HT_Remove (mem s) (table s) k h = Some (r, t)" and
    l: "HT_Lookup (mem s) (table s) k h = Some r"
    by blast
  show ?thesis
  proof (cases r)
    case None
    with l Erase_miss [OF inv] show ?thesis by blast
  next
    case (Some p)
    with l HT_Lookup_Some_iff [OF inv_table_ok [OF inv]] have "p \<in> members (table s)"
      by simp
    with inv_members [OF inv] inv_cached [OF inv, of p] obtain e where
      e: "mem s p = Some e" "in_cache e" by auto
    with nz l Some have "refs e \<noteq> 0" by simp
    with FinishErase_returns [of p "s\<lparr>table := t\<rparr>" e] inv_table_remove(1) [OF inv rm] Some e
    obtain s' where "FinishErase (Some p) (s\<lparr>table := t\<rparr>) = Some (True, s')" by auto
    with rm Some show ?thesis by (simp add: Erase_def)
  qed
qed

text \<open>
  Claim C8.  In every reachable state: when a lookup of \<open>(k, h)\<close> misses, \<open>Erase k h\<close>
  returns the state unchanged, so that no deleter is called; and whenever \<open>Erase k h\<close> has
  returned, a second \<open>Erase k h\<close> returns the state it is given.  (The first \<open>Erase\<close>
  returns unless the reference count of the entry it finds is 0.)
\<close>

theorem Erase_idempotent:
  assumes r: "reachable c s"
  shows "(map_option fst (Lookup k h s) = Some None \<longrightarrow> Erase k h s = Some s) \<and>
    (\<forall>s'. Erase k h s = Some s' \<longrightarrow> Erase k h s' = Some s') \<and>
    ((\<forall>p e. map_option fst (Lookup k h s) = Some (Some p) \<longrightarrow> mem s p = Some e
         \<longrightarrow> refs e \<noteq> 0)
     \<longrightarrow> (\<exists>s'. Erase k h s = Some s'))"
proof (intro conjI allI impI)
  from r have inv: "shard_inv_ex {} s" by (rule reachable_inv)
  show "Erase k h s = Some s" if "map_option fst (Lookup k h s) = Some None"
  proof (rule Erase_miss [OF inv])
    from that show "HT_Lookup (mem s) (table s) k h = Some None"
      by (simp only: Lookup_miss_iff)
  qed
  show "Erase k h s' = Some s'" if er: "Erase k h s = Some s'" for s'
  proof -
    from er have "apply_op (OpErase k h) s = Some s'" by simp
    with r have "reachable c s'" by (rule reachable_step)
    then have "shard_inv_ex {} s'" by (rule reachable_inv)
    then show ?thesis using Erase_then_miss [OF r er] by (rule Erase_miss)
  qed
  show "\<exists>s'. Erase k h s = Some s'"
    if nz: "\<forall>p e. map_option fst (Lookup k h s) = Some (Some p) \<longrightarrow> mem s p = Some e
         \<longrightarrow> refs e \<noteq> 0"
  proof (rule Erase_returns [OF inv], intro allI impI)
    fix p e assume l: "HT_Lookup (mem s) (table s) k h = Some (Some p)"
      and e: "mem s p = Some e"
    from Ref_returns [OF inv e] l have "map_option fst (Lookup k h s) = Some (Some p)"
      by (auto simp: Lookup_def)
    with nz e show "refs e \<noteq> 0" by blast
  qed
qed

theorem Erase_idempotent_witness:
  "reachable 10 pinned_pair \<and>
   map_option fst (Lookup ''c'' 3 pinned_pair) = Some None \<and>
   Erase ''c'' 3 pinned_pair = Some pinned_pair \<and>
   Option.bind (Erase ''a'' 1 pinned_pair) (Erase ''a'' 1) = Erase ''a'' 1 pinned_pair \<and>
   Erase ''a'' 1 pinned_pair \<noteq> None"
proof -
  note t = Erase_idempotent [OF reachable_pinned_pair]
  have miss: "map_option fst (Lookup ''c'' 3 pinned_pair) = Some None"
    by (simp add: eval_defs pinned_pair_def)
  with t [of "''c''" 3] have 1: "Erase ''c'' 3 pinned_pair = Some pinned_pair" by blast
  have "\<forall>p e. map_option fst (Lookup ''a'' 1 pinned_pair) = Some (Some p) \<longrightarrow>
      mem pinned_pair p = Some e \<longrightarrow> refs e \<noteq> 0"
    by (simp add: eval_defs pinned_pair_def)
  with t [of "''a''" 1] obtain s' where s': "Erase ''a'' 1 pinned_pair = Some s'" by blast
  with t [of "''a''" 1] have "Erase ''a'' 1 s' = Some s'" by blast
  with s' 1 miss reachable_pinned_pair show ?thesis by simp
qed


section \<open>Lookup after insert\<close>

lemma evolves_capacity: "evolves s s' \<Longrightarrow> capacity s' = capacity s"
  by (simp add: evolves_def)

lemma reachable_capacity: "reachable c s \<Longrightarrow> capacity s = c"
proof (induction rule: reachable.induct)
  case (reachable_new s)
  then show ?case by (auto simp: NewLRUCache_eq)
next
  case (reachable_step s x s')
  from apply_op_evolves [OF reachable_step.hyps(2)] reachable_step.IH show ?case
    by (auto dest!: evolves_capacity simp: allocated_def)
qed

lemma evolves_live:
  assumes "evolves s s'" and "mem s p = Some e" and "mem s' p = Some e'"
  shows "same_entry e e'"
proof -
  from assms(1) have "case mem s p of
        None \<Rightarrow> mem s' p = None \<and> calls_for p s' = calls_for p s
      | Some e \<Rightarrow>
          (\<exists>e'. mem s' p = Some e' \<and> same_entry e e' \<and> calls_for p s' = calls_for p s) \<or>
          (mem s' p = None \<and>
           calls_for p s' = calls_for p s @ [(p, deleter e, key_data e, val e)])"
    unfolding evolves_def by blast
  with assms(2,3) show ?thesis by auto
qed

lemma Unref_other: "Unref q s = Some s' \<Longrightarrow> p \<noteq> q \<Longrightarrow> mem s' p = mem s p"
  by (auto simp: Unref_def assert_def Let_def LRU_Remove_def LRU_Append_def
      split: bind_splits if_splits)

lemma FinishErase_other:
  assumes "FinishErase r s = Some (b, s')" and "p \<notin> set_option r"
  shows "mem s' p = mem s p"
proof (cases r)
  case None
  with assms show ?thesis by (simp add: FinishErase_def)
next
  case (Some q)
  with assms obtain e s1 where s1: "LRU_Remove q s = Some s1"
    and u: "Unref q (s1\<lparr>mem := (mem s1)(q \<mapsto> e\<lparr>in_cache := False\<rparr>),
                        usage := usage s1 - charge e\<rparr>) = Some s'"
    by (auto simp: FinishErase_def assert_def Let_def split: bind_splits if_splits)
  from s1 have "mem s1 = mem s" by (auto simp: LRU_Remove_def split: if_splits)
  with Unref_other [OF u, of p] assms(2) Some show ?thesis by simp
qed

lemma Insert_loop_members:
  "shard_inv_ex {} s \<Longrightarrow> Insert_loop s = Some s' \<Longrightarrow>
   members (table s) - set (lru s) \<subseteq> members (table s')"
proof (induction s rule: Insert_loop.induct)
  case (1 s)
  show ?case
  proof (cases "usage s > capacity s \<and> lru s \<noteq> []")
    case True
    with "1.prems"(2) obtain s1 where s1: "evict_oldest s = Some s1" "Insert_loop s1 = Some s'"
      by (subst (asm) Insert_loop.simps) (auto split: option.splits)
    from True obtain old rest where l: "lru s = old # rest" by (cases "lru s") auto
    from evict_oldest_eq [OF "1.prems"(1) l] s1(1) have
      "lru s1 = rest" "members (table s1) = members (table s) - {old}"
      by auto
    with "1.IH" [OF True s1(1) evict_oldest_inv [OF "1.prems"(1) s1(1)] s1(2)] l
    show ?thesis by auto
  next
    case False
    with "1.prems"(2) have "s' = s"
      by (subst (asm) Insert_loop.simps) auto
    then show ?thesis by auto
  qed
qed

text \<open>After an insert into a shard of positive capacity the new entry is in the table.\<close>

lemma Insert_cached:
  assumes inv: "shard_inv_ex {} s" and cap: "0 < capacity s"
    and ins: "Insert k h v c d s = Some (p, s')"
  shows "p \<in> members (table s')"
    and "\<exists>e. mem s' p = Some e \<and> val e = v \<and> hash e = h \<and> key_data e = k"
proof -
  let ?e = "\<lparr>val = v, deleter = d, charge = c, in_cache = True, refs = 2,
     hash = h, key_data = k\<rparr>"
  let ?s2 = "s\<lparr>mem := (mem s)(brk s \<mapsto> ?e), brk := Suc (brk s),
     in_use := in_use s @ [brk s], usage := usage s + c\<rparr>"
  from ins cap obtain old t b s1 where
    p: "p = brk s"
    and hi: "HT_Insert ((mem s)(brk s \<mapsto> ?e)) (table s) (brk s) = Some (old, t)"
    and fe: "FinishErase old (?s2\<lparr>table := t\<rparr>) = Some (b, s1)"
    and loop: "Insert_loop s1 = Some s'"
    unfolding Insert_unfold by (auto simp: Let_def split: bind_splits)
  have inv2: "shard_inv_ex {brk s} ?s2"
    using inv_alloc [OF inv, of ?e] by simp
  have ok2: "table_ok ((mem s)(brk s \<mapsto> ?e)) (table s)"
    using inv_table_ok [OF inv2] by simp
  have m2: "members (table s) = set (lru s @ in_use s)"
    using inv_members [OF inv] by simp
  have fresh: "brk s \<notin> members (table s)"
    using inv_members [OF inv2] by auto
  have me: "((mem s)(brk s \<mapsto> ?e)) (brk s) = Some ?e" by simp
  note io = HT_Insert_ok [OF ok2 me fresh hi]
  have old_in: "set_option old \<subseteq> members (table s)"
  proof (cases old)
    case None then show ?thesis by simp
  next
    case (Some q)
    with io(1) HT_Lookup_Some_iff [OF ok2] show ?thesis by auto
  qed
  have "members t = set (lru ?s2 @ in_use ?s2) - set_option old"
    using io(3) m2 old_in fresh by auto
  with inv2 io(2) have "shard_inv_ex (set_option old) (?s2\<lparr>table := t\<rparr>)"
    by (intro inv_set_table [OF inv2]) simp_all
  then have inv1: "shard_inv_ex {} s1" using fe by (rule FinishErase_opt_inv)
  have pold: "p \<notin> set_option old" using old_in fresh p by auto
  from FinishErase_other [OF fe pold] p have e1: "mem s1 p = Some ?e" by simp
  have "table s1 = t" using FinishErase_table [OF fe] by simp
  with io(3) p have pm1: "p \<in> members (table s1)" by simp
  have "p \<notin> set (lru s1)"
  proof
    assume "p \<in> set (lru s1)"
    from inv_lru_refs [OF inv1 this] e1 show False by simp
  qed
  with pm1 Insert_loop_members [OF inv1 loop] show pm: "p \<in> members (table s')" by auto
  have inv': "shard_inv_ex {} s'" using inv1 loop by (rule Insert_loop_inv)
  from pm inv_members [OF inv'] inv_cached [OF inv', of p] obtain e' where
    e': "mem s' p = Some e'" by auto
  from evolves_live [OF Insert_loop_evolves [OF loop] e1 e']
  show "\<exists>e. mem s' p = Some e \<and> val e = v \<and> hash e = h \<and> key_data e = k"
    using e' by (simp add: same_entry_def)
qed

text \<open>The operations that do not take the entry with key \<open>k\<close> and hash \<open>h\<close> out of the
  table: a lookup, a release, and an erase of another key.\<close>

fun keeps :: "Slice \<Rightarrow> uint32_t \<Rightarrow> operation \<Rightarrow> bool" where
  "keeps k h (OpLookup k' h') = True"
| "keeps k h (OpRelease p) = True"
| "keeps k h (OpErase k' h') = (k' \<noteq> k \<or> h' \<noteq> h)"
| "keeps k h (OpInsert k' h' v c d) = False"
| "keeps k h OpPrune = False"

definition holds_entry :: "addr \<Rightarrow> Slice \<Rightarrow> uint32_t \<Rightarrow> nat \<Rightarrow> LRUCache \<Rightarrow> bool" where
  "holds_entry p k h v s \<longleftrightarrow>
     p \<in> members (table s) \<and>
     (\<exists>e. mem s p = Some e \<and> val e = v \<and> hash e = h \<and> key_data e = k)"

lemma Ref_table: "Ref p s = Some s' \<Longrightarrow> table s' = table s"
  by (auto simp: Ref_def LRU_Append_def split: bind_splits if_splits dest!: LRU_Remove_table)

lemma Lookup_table: "Lookup k h s = Some (r, s') \<Longrightarrow> table s' = table s"
  by (auto simp: Lookup_def split: bind_splits option.splits dest: Ref_table)

lemma keeps_members:
  assumes inv: "shard_inv_ex {} s" and he: "holds_entry p k h v s"
    and q: "keeps k h x" and a: "apply_op x s = Some s'"
  shows "p \<in> members (table s') \<and> evolves s s'"
proof (cases x)
  case (OpInsert k' h' v' c' d')
  with q show ?thesis by simp
next
  case (OpLookup k' h')
  with a obtain r where l: "Lookup k' h' s = Some (r, s')" by auto
  from Lookup_table [OF l] Lookup_evolves [OF l] he show ?thesis
    by (simp add: holds_entry_def)
next
  case (OpRelease r)
  with a have u: "Unref r s = Some s'" by (simp add: Release_def)
  from Unref_table [OF u] Unref_evolves [OF u] he show ?thesis
    by (simp add: holds_entry_def)
next
  case (OpErase k' h')
  with a have er: "Erase k' h' s = Some s'" by simp
  from Erase_members [OF inv er] obtain r where
    l: "HT_Lookup (mem s) (table s) k' h' = Some r" and
    m: "members (table s') = members (table s) - set_option r"
    by blast
  have "r \<noteq> Some p"
  proof
    assume "r = Some p"
    with l HT_Lookup_Some_iff [OF inv_table_ok [OF inv]] have "matches (mem s) k' h' p"
      by simp
    with he q OpErase show False by (auto simp: holds_entry_def matches_def)
  qed
  with m he have "p \<in> members (table s')" by (cases r) (auto simp: holds_entry_def)
  with Erase_evolves [OF er] show ?thesis by simp
next
  case OpPrune
  with q show ?thesis by simp
qed

lemma keeps_holds_entry:
  assumes r: "reachable c s" and he: "holds_entry p k h v s"
    and q: "keeps k h x" and a: "apply_op x s = Some s'"
  shows "holds_entry p k h v s'"
proof -
  from r have inv: "shard_inv_ex {} s" by (rule reachable_inv)
  from r a have "reachable c s'" by (rule reachable_step)
  then have inv': "shard_inv_ex {} s'" by (rule reachable_inv)
  from keeps_members [OF inv he q a] have pm: "p \<in> members (table s')"
    and ev: "evolves s s'" by simp_all
  from pm inv_members [OF inv'] inv_cached [OF inv', of p] obtain e' where
    e': "mem s' p = Some e'" by auto
  from he obtain e where e: "mem s p = Some e" "val e = v" "hash e = h" "key_data e = k"
    by (auto simp: holds_entry_def)
  from evolves_live [OF ev e(1) e'] e e' pm show ?thesis
    by (auto simp: holds_entry_def same_entry_def)
qed

lemma run_holds_entry:
  "reachable c s \<Longrightarrow> holds_entry p k h v s \<Longrightarrow> \<forall>x \<in> set ops. keeps k h x \<Longrightarrow>
   run ops s = Some s' \<Longrightarrow> holds_entry p k h v s'"
proof (induction ops arbitrary: s)
  case Nil
  then show ?case by simp
next
  case (Cons x xs)
  from Cons.prems(4) obtain s1 where s1: "apply_op x s = Some s1" "run xs s1 = Some s'"
    by (auto split: option.splits)
  from Cons.prems(1) s1(1) have r1: "reachable c s1" by (rule reachable_step)
  from Cons.prems(3) have kx: "keeps k h x" and kxs: "\<forall>x \<in> set xs. keeps k h x" by simp_all
  from keeps_holds_entry [OF Cons.prems(1,2) kx s1(1)] have "holds_entry p k h v s1" .
  from Cons.IH [OF r1 this kxs s1(2)] show ?case .
qed

lemma holds_entry_Lookup:
  assumes inv: "shard_inv_ex {} s" and he: "holds_entry p k h v s"
  shows "\<exists>s'. Lookup k h s = Some (Some p, s') \<and> Value p s' = Some v"
proof -
  from he obtain e where pm: "p \<in> members (table s)"
    and e: "mem s p = Some e" "val e = v" "hash e = h" "key_data e = k"
    by (auto simp: holds_entry_def)
  from pm inv_members [OF inv] have "p \<in> set (lru s @ in_use s)" by simp
  from Lookup_hit [OF inv this e(1)] e obtain s' where
    l: "Lookup k h s = Some (Some p, s')" by auto
  from inv l have inv': "shard_inv_ex {} s'" by (rule Lookup_inv)
  from pm Lookup_table [OF l] inv_members [OF inv'] inv_cached [OF inv', of p]
  obtain e' where e': "mem s' p = Some e'" by auto
  from evolves_live [OF Lookup_evolves [OF l] e(1) e'] e e' have "Value p s' = Some v"
    by (simp add: Value_def same_entry_def)
  with l show ?thesis by blast
qed

definition erased_held :: LRUCache where
  "erased_held =
     \<lparr>capacity = 10, usage = 0, lru = [], in_use = [],
      table = \<lparr>ht_length = 4, ht_elems = 0, ht_list = [[], [], [], []]\<rparr>,
      mem = [0 \<mapsto> \<lparr>val = 100, deleter = 0, charge = 6, in_cache = False, refs = 1,
                      hash = 1, key_data = ''a''\<rparr>],
      brk = 1, deleted = []\<rparr>"

definition unpinned_one :: LRUCache where
  "unpinned_one =
     \<lparr>capacity = 10, usage = 6, lru = [0], in_use = [],
      table = \<lparr>ht_length = 4, ht_elems = 1, ht_list = [[], [0], [], []]\<rparr>,
      mem = [0 \<mapsto> \<lparr>val = 100, deleter = 0, charge = 6, in_cache = True, refs = 1,
                      hash = 1, key_data = ''a''\<rparr>],
      brk = 1, deleted = []\<rparr>"

text \<open>
  Claim C6, as stated, lets any operation but an insert come between the insert and the
  lookup.  It fails when the key is erased in between: in a new shard of capacity 10,
  \<open>Insert\<close> of key \<open>a\<close> puts the entry on the in-use list, \<open>Erase\<close> of \<open>a\<close> takes it out
  of the table, and the \<open>Lookup\<close> of \<open>a\<close> that follows returns \<open>nullptr\<close>.
\<close>

theorem Lookup_after_Insert_counterexample:
  "NewLRUCache 10 = Some shard10 \<and>
   Insert ''a'' 1 100 6 0 shard10 = Some (0, pinned_one) \<and> in_use pinned_one = [0] \<and>
   run [OpErase ''a'' 1] pinned_one = Some erased_held \<and>
   Lookup ''a'' 1 erased_held = Some (None, erased_held)"
proof -
  have "run [OpErase ''a'' 1] pinned_one = Some erased_held"
    by (simp add: eval_defs pinned_one_def erased_held_def)
  moreover have "Lookup ''a'' 1 erased_held = Some (None, erased_held)"
    by (simp add: eval_defs erased_held_def)
  ultimately show ?thesis
    using NewLRUCache_10 Insert_a by (simp add: pinned_one_def)
qed

text \<open>
  Claim C6, amended.  After an \<open>Insert\<close> of key \<open>k\<close> with value \<open>v\<close> into a reachable
  shard of positive capacity (the insert then keeps the entry: its own eviction loop only
  takes entries from the LRU list, and the new entry is on the in-use list), and after any
  sequence of lookups, releases and erases of other keys that returns, but no insert,
  no erase of \<open>k\<close> and no prune, \<open>Lookup\<close> of \<open>k\<close> returns the handle that the insert
  returned, and its \<open>Value\<close> is \<open>v\<close>.
\<close>

theorem Lookup_after_Insert:
  assumes r: "reachable c s" and cap: "0 < c"
    and ins: "Insert k h v ch d s = Some (p, s1)"
    and ops: "run ops s1 = Some s2" and quiet: "\<forall>x \<in> set ops. keeps k h x"
  shows "\<exists>s3. Lookup k h s2 = Some (Some p, s3) \<and> Value p s3 = Some v"
proof -
  from r have inv: "shard_inv_ex {} s" by (rule reachable_inv)
  from cap reachable_capacity [OF r] have cap': "0 < capacity s" by simp
  from ins have "apply_op (OpInsert k h v ch d) s = Some s1" by simp
  with r have r1: "reachable c s1" by (rule reachable_step)
  from Insert_cached [OF inv cap' ins] have "holds_entry p k h v s1"
    by (simp add: holds_entry_def)
  from run_holds_entry [OF r1 this quiet ops] have he: "holds_entry p k h v s2" .
  from run_reachable [OF r1 ops] have "shard_inv_ex {} s2" by (rule reachable_inv)
  then show ?thesis using he by (rule holds_entry_Lookup)
qed


lemma run_quiet: "run [OpRelease 0, OpLookup ''b'' 2, OpErase ''b'' 2] pinned_one = Some unpinned_one"
  by (simp add: eval_defs pinned_one_def unpinned_one_def)

theorem Lookup_after_Insert_witness:
  "reachable 10 shard10 \<and> (0 :: size_t) < 10 \<and>
   Insert ''a'' 1 100 6 0 shard10 = Some (0, pinned_one) \<and>
   run [OpRelease 0, OpLookup ''b'' 2, OpErase ''b'' 2] pinned_one = Some unpinned_one \<and>
   map_option fst (Lookup ''a'' 1 unpinned_one) = Some (Some 0) \<and>
   Option.bind (Lookup ''a'' 1 unpinned_one) (Value 0 \<circ> snd) = Some 100"
proof -
  have q: "\<forall>x \<in> set [OpRelease 0, OpLookup ''b'' 2, OpErase ''b'' 2]. keeps ''a'' 1 x"
    by simp
  have c: "(0 :: size_t) < 10" by simp
  from Lookup_after_Insert [OF reachable_shard10 c Insert_a run_quiet q]
  obtain s3 where "Lookup ''a'' 1 unpinned_one = Some (Some 0, s3)" "Value 0 s3 = Some 100"
    by blast
  then show ?thesis using reachable_shard10 Insert_a run_quiet by simp
qed


section \<open>Insert into the hash table\<close>

lemma unat_two_power:
  assumes j: "j < 32"
  shows "unat ((2 :: uint32_t) ^ j) = 2 ^ j"
proof -
  have "(2 :: uint32_t) ^ j = of_nat (2 ^ j)" by simp
  moreover have "(2::nat) ^ j < 2 ^ 32" using j by (rule power_strict_increasing) simp
  ultimately show ?thesis
    by (simp add: unat_of_nat take_bit_nat_eq_self del: of_nat_power of_nat_numeral)
qed


lemma Resize_length_power:
  assumes "unat e \<le> 2 ^ 31" and "2 \<le> j" and "j \<le> 31"
    and "2 < j \<longrightarrow> 2 ^ (j - 1) < unat e"
  shows "\<exists>i. j \<le> i \<and> i \<le> 31 \<and> Resize_length (2 ^ j) e = Some (2 ^ i) \<and>
    unat e \<le> 2 ^ i \<and> (2 < i \<longrightarrow> 2 ^ (i - 1) < unat e)"
  using assms
proof (induction "31 - j" arbitrary: j)
  case 0
  then have j: "j = 31" by simp
  have "\<not> (2 :: uint32_t) ^ 31 < e"
    using "0.prems"(1) unat_two_power [of 31] by (simp add: word_less_nat_alt)
  then have "Resize_length (2 ^ 31) e = Some (2 ^ 31)"
    by (subst Resize_length.simps) simp
  with "0.prems" j show ?case by auto
next
  case (Suc n)
  then have j: "j < 31" by simp
  then have uj: "unat ((2 :: uint32_t) ^ j) = 2 ^ j" by (simp add: unat_two_power)
  show ?case
  proof (cases "(2 :: uint32_t) ^ j < e")
    case True
    then have lt: "2 ^ j < unat e" using uj by (simp add: word_less_nat_alt)
    have "n = 31 - Suc j" using Suc.hyps(2) by simp
    moreover have "2 < Suc j \<longrightarrow> 2 ^ (Suc j - 1) < unat e" using lt by simp
    ultimately obtain i where i: "Suc j \<le> i" "i \<le> 31"
      "Resize_length (2 ^ Suc j) e = Some (2 ^ i)" "unat e \<le> 2 ^ i"
      "2 < i \<longrightarrow> 2 ^ (i - 1) < unat e"
      using Suc.hyps(1) [of "Suc j"] Suc.prems(1,2) j by auto
    have "Resize_length (2 ^ j) e = Resize_length (2 ^ j * 2) e"
      using True by (subst Resize_length.simps) simp
    with i show ?thesis by (auto simp: mult.commute intro!: exI [of _ i])
  next
    case False
    then have "unat e \<le> 2 ^ j" using uj by (simp add: word_less_nat_alt)
    moreover from False have "Resize_length (2 ^ j) e = Some (2 ^ j)"
      by (subst Resize_length.simps) simp
    ultimately show ?thesis using Suc.prems j by (auto intro!: exI [of _ j])
  qed
qed

text \<open>Above \<open>2^31\<close> entries the doubling wraps around to 0 and the loop never ends.\<close>

lemma Resize_length_diverges:
  assumes big: "2 ^ 31 < unat e"
  shows "Resize_length 4 e = None"
proof (rule ccontr)
  assume "Resize_length 4 e \<noteq> None"
  then obtain n where n: "Resize_length 4 e = Some n" by auto
  have "e = e \<longrightarrow> (4 :: uint32_t) = 0 \<or> (\<exists>j. 2 \<le> j \<and> j \<le> 31 \<and> (4 :: uint32_t) = 2 ^ j) \<longrightarrow> False"
  proof (rule Resize_length.raw_induct
      [where P = "\<lambda>m e' n. e' = e \<longrightarrow> m = 0 \<or> (\<exists>j. 2 \<le> j \<and> j \<le> 31 \<and> m = 2 ^ j) \<longrightarrow> False",
        OF _ n])
    fix f :: "uint32_t \<Rightarrow> uint32_t \<Rightarrow> uint32_t option" and m e' n' :: uint32_t
    assume IH: "\<And>m e' n. f m e' = Some n \<Longrightarrow>
        e' = e \<longrightarrow> m = 0 \<or> (\<exists>j. 2 \<le> j \<and> j \<le> 31 \<and> m = 2 ^ j) \<longrightarrow> False"
      and step: "(if m < e' then f (m * 2) e' else Some m) = Some n'"
    show "e' = e \<longrightarrow> m = 0 \<or> (\<exists>j. 2 \<le> j \<and> j \<le> 31 \<and> m = 2 ^ j) \<longrightarrow> False"
    proof (intro impI)
      assume e': "e' = e" and m: "m = 0 \<or> (\<exists>j. 2 \<le> j \<and> j \<le> 31 \<and> m = 2 ^ j)"
      have lt: "m < e"
      proof -
        from m have "unat m \<le> 2 ^ 31"
        proof
          assume "m = 0" then show ?thesis by simp
        next
          assume "\<exists>j. 2 \<le> j \<and> j \<le> 31 \<and> m = 2 ^ j"
          then obtain j where j: "j \<le> 31" "m = 2 ^ j" by blast
          then have "unat m = 2 ^ j" by (simp add: unat_two_power)
          moreover have "(2 :: nat) ^ j \<le> 2 ^ 31" using j(1) by (intro power_increasing) simp_all
          ultimately show ?thesis by simp
        qed
        with big show ?thesis by (simp add: word_less_nat_alt)
      qed
      with step e' have call: "f (m * 2) e = Some n'" by simp
      have "m * 2 = 0 \<or> (\<exists>j. 2 \<le> j \<and> j \<le> 31 \<and> m * 2 = 2 ^ j)"
        using m
      proof
        assume "m = 0" then show ?thesis by simp
      next
        assume "\<exists>j. 2 \<le> j \<and> j \<le> 31 \<and> m = 2 ^ j"
        then obtain j where j: "2 \<le> j" "j \<le> 31" "m = 2 ^ j" by blast
        show ?thesis
        proof (cases "j = 31")
          case True
          with j have "m * 2 = 0" by simp
          then show ?thesis by simp
        next
          case False
          with j have "2 \<le> Suc j \<and> Suc j \<le> 31 \<and> m * 2 = 2 ^ Suc j" by simp
          then show ?thesis by blast
        qed
      qed
      with IH [OF call] show False by simp
    qed
  qed
  moreover have "\<exists>j. 2 \<le> j \<and> j \<le> 31 \<and> (4 :: uint32_t) = 2 ^ j"
    by (rule exI [of _ 2]) simp
  ultimately show False by blast
qed

lemma Resize_length_returns:
  assumes "unat e \<le> 2 ^ 31"
  shows "\<exists>i. 2 \<le> i \<and> i \<le> 31 \<and> Resize_length 4 e = Some (2 ^ i) \<and>
    unat e \<le> 2 ^ i \<and> (2 < i \<longrightarrow> 2 ^ (i - 1) < unat e)"
  using Resize_length_power [OF assms, of 2] by simp

lemma rehash_returns:
  "\<forall>p \<in> set ps. M p \<noteq> None \<Longrightarrow> n \<noteq> 0 \<Longrightarrow> length nl = unat n \<Longrightarrow>
   \<exists>nl'. rehash M n ps (nl, cnt) = Some (nl', cnt + of_nat (length ps))"
proof (induction ps arbitrary: nl cnt)
  case Nil
  then show ?case by simp
next
  case (Cons p ps)
  from Cons.prems(1) obtain e where e: "M p = Some e" by auto
  let ?b = "unat (hash e AND (n - 1))"
  have b: "?b < length nl" using bucket_lt [OF Cons.prems(2)] Cons.prems(3) by simp
  from Cons.IH [of "nl[?b := p # nl ! ?b]" "cnt + 1"] Cons.prems
  obtain nl' where "rehash M n ps (nl[?b := p # nl ! ?b], cnt + 1) =
      Some (nl', cnt + 1 + of_nat (length ps))"
    by auto
  with e b show ?case by (simp add: Let_def ac_simps)
qed


lemma Resize_returns:
  assumes ok: "table_ok M t"
    and cnt: "ht_elems t = of_nat (length (concat (ht_list t)))"
    and bound: "unat (ht_elems t) \<le> 2 ^ 31"
  shows "\<exists>t' i. Resize M t = Some t' \<and> 2 \<le> i \<and> i \<le> 31 \<and> ht_length t' = 2 ^ i \<and>
    unat (ht_elems t) \<le> 2 ^ i \<and> (2 < i \<longrightarrow> 2 ^ (i - 1) < unat (ht_elems t)) \<and>
    ht_elems t' = ht_elems t"
proof -
  from Resize_length_returns [OF bound] obtain i where
    i: "2 \<le> i" "i \<le> 31" "Resize_length 4 (ht_elems t) = Some (2 ^ i)"
      "unat (ht_elems t) \<le> 2 ^ i" "2 < i \<longrightarrow> 2 ^ (i - 1) < unat (ht_elems t)"
    by blast
  let ?n = "(2 :: uint32_t) ^ i"
  from Resize_length_zero [OF i(3)] have n0: "?n \<noteq> 0" by auto
  from ok have len: "length (ht_list t) = unat (ht_length t)" by (simp add: table_ok_def)
  have alloc: "\<forall>p \<in> set (concat (ht_list t)). M p \<noteq> None"
    using table_ok_alloc [OF ok] by (simp add: members_def)
  from rehash_returns [OF alloc n0, of "replicate (unat ?n) []" 0] obtain nl where
    "rehash M ?n (concat (ht_list t)) (replicate (unat ?n) [], 0) =
       Some (nl, 0 + of_nat (length (concat (ht_list t))))"
    by auto
  with i(3) cnt len have "Resize M t = Some (t\<lparr>ht_list := nl, ht_length := ?n\<rparr>)"
    by (simp add: Resize_def assert_def)
  with i show ?thesis by auto
qed

text \<open>The table with the new entry linked in, before any resize: \<open>HT_Insert\<close> on the
  table with its counter set to 0 never resizes.\<close>

lemma FindPointer_elems [simp]:
  "FindPointer M (t\<lparr>ht_elems := n\<rparr>) k h = FindPointer M t k h"
  by (simp add: FindPointer_def Let_def cong: if_cong)

lemma HT_Insert_linked:
  assumes ok: "table_ok M t" and e: "M h = Some e" and fresh: "h \<notin> members t"
  shows "\<exists>old t1. HT_Lookup M t (key_data e) (hash e) = Some old \<and>
    table_ok M t1 \<and> members t1 = insert h (members t - set_option old) \<and>
    ht_length t1 = ht_length t \<and> ht_elems t1 = ht_elems t \<and>
    length (concat (ht_list t1)) =
      (if old = None then Suc (length (concat (ht_list t))) else length (concat (ht_list t))) \<and>
    (\<exists>ptr. FindPointer M t (key_data e) (hash e) = Some ptr \<and> slot t1 ptr = Some h) \<and>
    HT_Insert M t h =
      (if old = None then
         (if ht_length t < ht_elems t + 1
          then map_option (Pair None) (Resize M (t1\<lparr>ht_elems := ht_elems t + 1\<rparr>))
          else Some (None, t1\<lparr>ht_elems := ht_elems t + 1\<rparr>))
       else Some (old, t1))"
proof -
  define b where "b = unat (hash e AND (ht_length t - 1))"
  define c where "c = ht_list t ! b"
  define i where "i = length (takeWhile (\<lambda>p. \<not> matches M (key_data e) (hash e) p) c)"
  define t1 where "t1 = t\<lparr>ht_list := (ht_list t)[b :=
      (if i < length c then c[i := h] else c @ [h])]\<rparr>"
  have b: "b < length (ht_list t)" unfolding b_def using ok by (rule table_ok_bucket)
  have fp: "FindPointer M t (key_data e) (hash e) = Some (b, i)"
    unfolding b_def c_def i_def by (rule FindPointer_ok [OF ok])
  then have fp0: "FindPointer M (t\<lparr>ht_elems := 0\<rparr>) (key_data e) (hash e) = Some (b, i)"
    by simp
  have ile: "i \<le> length c" unfolding i_def by (rule length_takeWhile_le)
  have l0: "ht_length t \<noteq> 0" using ok by (simp add: table_ok_def)
  then have "\<not> ht_length t < 1" by simp
  then have ins0: "HT_Insert M (t\<lparr>ht_elems := 0\<rparr>) h =
      Some (slot t (b, i), t1\<lparr>ht_elems := (if slot t (b, i) = None then 1 else 0)\<rparr>)"
    using e fp0 by (auto simp: HT_Insert_def slot_def Let_def c_def t1_def)
  have ok0: "table_ok M (t\<lparr>ht_elems := 0\<rparr>)" using ok by simp
  have fresh0: "h \<notin> members (t\<lparr>ht_elems := 0\<rparr>)" using fresh by simp
  note io = HT_Insert_ok [OF ok0 e fresh0 ins0]
  have l: "HT_Lookup M t (key_data e) (hash e) = Some (slot t (b, i))"
    by (simp add: HT_Lookup_def fp)
  have ok1: "table_ok M t1" using io(2) by simp
  have m1: "members t1 = insert h (members t - set_option (slot t (b, i)))"
    using io(3) by simp
  have sl: "slot t1 (b, i) = Some h"
    using b ile by (auto simp: slot_def t1_def Let_def nth_append)
  have len: "length (concat (ht_list t1)) =
      (if slot t (b, i) = None then Suc (length (concat (ht_list t)))
       else length (concat (ht_list t)))"
    using length_concat_update [OF b, of "if i < length c then c[i := h] else c @ [h]"]
    by (auto simp: t1_def slot_def Let_def c_def)
  have ins: "HT_Insert M t h =
      (if slot t (b, i) = None then
         (if ht_length t < ht_elems t + 1
          then map_option (Pair None) (Resize M (t1\<lparr>ht_elems := ht_elems t + 1\<rparr>))
          else Some (None, t1\<lparr>ht_elems := ht_elems t + 1\<rparr>))
       else Some (slot t (b, i), t1))"
    using e fp by (auto simp: HT_Insert_def slot_def Let_def c_def t1_def)
  from l ok1 m1 sl len ins fp show ?thesis
    by (intro exI [of _ "slot t (b, i)"] exI [of _ t1]) (simp add: t1_def)
qed


lemma slot_elems [simp]: "slot (t\<lparr>ht_elems := n\<rparr>) ptr = slot t ptr"
  by (simp add: slot_def)

lemma Resize_count:
  assumes ok: "table_ok M t" and r: "Resize M t = Some t'"
  shows "length (concat (ht_list t')) = length (concat (ht_list t))"
proof -
  from Resize_ok [OF ok r] have ok': "table_ok M t'" and m: "members t' = members t"
    by simp_all
  from distinct_card [OF table_ok_distinct [OF ok]] distinct_card [OF table_ok_distinct [OF ok']]
    m show ?thesis by (simp add: members_def)
qed

definition dup_mem :: memory where
  "dup_mem =
     [0 \<mapsto> \<lparr>val = 101, deleter = 0, charge = 1, in_cache = True, refs = 1,
             hash = 1, key_data = ''a''\<rparr>,
      1 \<mapsto> \<lparr>val = 102, deleter = 0, charge = 1, in_cache = True, refs = 2,
             hash = 1, key_data = ''a''\<rparr>]"

definition one_table :: HandleTable where
  "one_table = \<lparr>ht_length = 4, ht_elems = 1, ht_list = [[], [0], [], []]\<rparr>"

text \<open>
  Claim C7, as stated, has the insert increment the element count always.  It does so
  only when no entry was displaced: inserting a second record with the key and hash of the
  one entry of a table returns that entry and leaves the count at 1.
\<close>

theorem HT_Insert_count_counterexample:
  "HT_Insert dup_mem one_table 1 =
     Some (Some 0, \<lparr>ht_length = 4, ht_elems = 1, ht_list = [[], [1], [], []]\<rparr>) \<and>
   ht_elems \<lparr>ht_length = 4, ht_elems = 1, ht_list = [[], [1], [], []]\<rparr> \<noteq>
   ht_elems one_table + 1"
  by (simp add: HT_Insert_def FindPointer_def slot_def Let_def dup_mem_def one_table_def)

text \<open>
  Claim C7, amended.  Take a well-formed table with fewer than \<open>2^31\<close> entries whose
  counter \<open>elems_\<close> is the number of its entries, and an allocated record \<open>h\<close> that is not
  in the table.  Then \<open>Insert\<close> returns.  It returns the entry that a lookup of the key
  and hash of \<open>h\<close> found before (or \<open>nullptr\<close>), and that entry is no longer in the table;
  a lookup of the key and hash now finds \<open>h\<close>.  The element count is incremented when no
  entry was displaced and unchanged otherwise.  When no entry was displaced and the new
  count exceeds the table length, the table is resized: the new length is \<open>2^i\<close> with
  \<open>i \<ge> 2\<close>, at least the count, and the least such (\<open>i = 2\<close> or \<open>2^(i-1)\<close> is below the
  count).  Otherwise the length is unchanged and \<open>h\<close> is in the slot that \<open>FindPointer\<close>
  returned for its key and hash.  The table is well formed again and the counter is
  again the number of entries.
\<close>

theorem HT_Insert_spec:
  assumes ok: "table_ok M t" and e: "M h = Some e" and fresh: "h \<notin> members t"
    and cnt: "ht_elems t = of_nat (length (concat (ht_list t)))"
    and bound: "unat (ht_elems t) < 2 ^ 31"
  shows "\<exists>old t'. HT_Insert M t h = Some (old, t') \<and>
    HT_Lookup M t (key_data e) (hash e) = Some old \<and>
    HT_Lookup M t' (key_data e) (hash e) = Some (Some h) \<and>
    members t' = insert h (members t - set_option old) \<and>
    ht_elems t' = (if old = None then ht_elems t + 1 else ht_elems t) \<and>
    (if old = None \<and> ht_length t < ht_elems t + 1
     then \<exists>i. 2 \<le> i \<and> i \<le> 31 \<and> ht_length t' = 2 ^ i \<and> unat (ht_elems t') \<le> 2 ^ i \<and>
            (2 < i \<longrightarrow> 2 ^ (i - 1) < unat (ht_elems t'))
     else ht_length t' = ht_length t \<and>
          (\<exists>ptr. FindPointer M t (key_data e) (hash e) = Some ptr \<and> slot t' ptr = Some h)) \<and>
    table_ok M t' \<and> ht_elems t' = of_nat (length (concat (ht_list t')))"
proof -
  from HT_Insert_linked [OF ok e fresh] obtain old t1 ptr where
    l: "HT_Lookup M t (key_data e) (hash e) = Some old" and
    ok1: "table_ok M t1" and
    m1: "members t1 = insert h (members t - set_option old)" and
    len1: "ht_length t1 = ht_length t" and el1: "ht_elems t1 = ht_elems t" and
    cnt1: "length (concat (ht_list t1)) =
      (if old = None then Suc (length (concat (ht_list t))) else length (concat (ht_list t)))" and
    fp: "FindPointer M t (key_data e) (hash e) = Some ptr" and sl: "slot t1 ptr = Some h" and
    ins: "HT_Insert M t h =
      (if old = None then
         (if ht_length t < ht_elems t + 1
          then map_option (Pair None) (Resize M (t1\<lparr>ht_elems := ht_elems t + 1\<rparr>))
          else Some (None, t1\<lparr>ht_elems := ht_elems t + 1\<rparr>))
       else Some (old, t1))"
    by blast
  have mh: "matches M (key_data e) (hash e) h" using e by (simp add: matches_def)
  have found: "\<And>t'. table_ok M t' \<Longrightarrow> members t' = insert h (members t - set_option old)
      \<Longrightarrow> HT_Lookup M t' (key_data e) (hash e) = Some (Some h)"
    using mh by (simp add: HT_Lookup_Some_iff)
  consider (displaced) "old \<noteq> None" | (linked) "old = None" "\<not> ht_length t < ht_elems t + 1"
    | (resized) "old = None" "ht_length t < ht_elems t + 1"
    by blast
  then show ?thesis
  proof cases
    case displaced
    with ins have "HT_Insert M t h = Some (old, t1)" by simp
    with displaced l ok1 m1 len1 el1 cnt1 cnt fp sl found [OF ok1 m1] show ?thesis
      by auto
  next
    case linked
    let ?t2 = "t1\<lparr>ht_elems := ht_elems t + 1\<rparr>"
    from linked ins have "HT_Insert M t h = Some (old, ?t2)" by simp
    moreover have "table_ok M ?t2" "members ?t2 = insert h (members t - set_option old)"
      using ok1 m1 by simp_all
    moreover have "ht_elems ?t2 = of_nat (length (concat (ht_list ?t2)))"
      using cnt cnt1 linked by simp
    ultimately show ?thesis using linked l len1 fp sl found [of ?t2]
      by auto
  next
    case resized
    let ?t2 = "t1\<lparr>ht_elems := ht_elems t + 1\<rparr>"
    have ok2: "table_ok M ?t2" and m2: "members ?t2 = insert h (members t - set_option old)"
      using ok1 m1 by simp_all
    have cnt2: "ht_elems ?t2 = of_nat (length (concat (ht_list ?t2)))"
      using cnt cnt1 resized by simp
    have "unat (ht_elems t + 1) \<le> unat (ht_elems t) + 1"
      by (simp add: unat_word_ariths)
    with bound have b2: "unat (ht_elems ?t2) \<le> 2 ^ 31" by simp
    from Resize_returns [OF ok2 cnt2 b2] obtain t' i where
      r: "Resize M ?t2 = Some t'" and
      i: "2 \<le> i" "i \<le> 31" "ht_length t' = 2 ^ i" "unat (ht_elems ?t2) \<le> 2 ^ i"
        "2 < i \<longrightarrow> 2 ^ (i - 1) < unat (ht_elems ?t2)" and
      el: "ht_elems t' = ht_elems ?t2"
      by blast
    from Resize_ok [OF ok2 r] m2 have ok': "table_ok M t'"
      and m': "members t' = insert h (members t - set_option old)" by simp_all
    from Resize_count [OF ok2 r] cnt2 el
    have cnt': "ht_elems t' = of_nat (length (concat (ht_list t')))" by simp
    from resized ins r have "HT_Insert M t h = Some (old, t')" by simp
    with resized l i el ok' m' cnt' found [OF ok' m'] show ?thesis
      by (intro exI [of _ old] exI [of _ t']) auto
  qed
qed


definition five_mem :: memory where
  "five_mem =
     [0 \<mapsto> \<lparr>val = 100, deleter = 0, charge = 1, in_cache = True, refs = 1,
             hash = 0, key_data = ''a''\<rparr>,
      1 \<mapsto> \<lparr>val = 101, deleter = 0, charge = 1, in_cache = True, refs = 1,
             hash = 1, key_data = ''b''\<rparr>,
      2 \<mapsto> \<lparr>val = 102, deleter = 0, charge = 1, in_cache = True, refs = 1,
             hash = 2, key_data = ''c''\<rparr>,
      3 \<mapsto> \<lparr>val = 103, deleter = 0, charge = 1, in_cache = True, refs = 1,
             hash = 3, key_data = ''d''\<rparr>,
      4 \<mapsto> \<lparr>val = 104, deleter = 0, charge = 1, in_cache = True, refs = 2,
             hash = 4, key_data = ''e''\<rparr>]"

definition full_table :: HandleTable where
  "full_table = \<lparr>ht_length = 4, ht_elems = 4, ht_list = [[0], [1], [2], [3]]\<rparr>"

lemma table_ok_full: "table_ok five_mem full_table"
proof -
  have four: "\<And>i. i < (4 :: nat) \<Longrightarrow> i = 0 \<or> i = 1 \<or> i = 2 \<or> i = 3" by arith
  have "\<forall>i < length (ht_list full_table). \<forall>p \<in> set (ht_list full_table ! i).
        \<exists>e. five_mem p = Some e \<and> unat (hash e AND (ht_length full_table - 1)) = i"
  proof (intro allI impI)
    fix i assume "i < length (ht_list full_table)"
    then have "i < 4" by (simp add: full_table_def)
    from four [OF this] show "\<forall>p \<in> set (ht_list full_table ! i).
        \<exists>e. five_mem p = Some e \<and> unat (hash e AND (ht_length full_table - 1)) = i"
      by (auto simp: full_table_def five_mem_def)
  qed
  moreover have "\<forall>p \<in> members full_table. \<forall>q \<in> members full_table. \<forall>e f.
        five_mem p = Some e \<longrightarrow> five_mem q = Some f \<longrightarrow> hash e = hash f \<longrightarrow>
        key_data e = key_data f \<longrightarrow> p = q"
    by (auto simp: members_def full_table_def five_mem_def)
  ultimately show ?thesis
    unfolding table_ok_def by (simp add: full_table_def)
qed

lemma Resize_length_4_5: "Resize_length 4 5 = Some 8"
  by (subst Resize_length.simps, simp, subst Resize_length.simps, simp)

lemma HT_Insert_full:
  "HT_Insert five_mem full_table 4 =
     Some (None, \<lparr>ht_length = 8, ht_elems = 5,
                  ht_list = [[0], [1], [2], [3], [4], [], [], []]\<rparr>)"
  by (simp add: HT_Insert_def FindPointer_def slot_def Let_def Resize_def Resize_length_4_5
        assert_def five_mem_def full_table_def)
    (simp add: eval_nat_numeral)

theorem HT_Insert_spec_witness:
  "table_ok five_mem full_table \<and> 4 \<notin> members full_table \<and>
   ht_elems full_table = of_nat (length (concat (ht_list full_table))) \<and>
   unat (ht_elems full_table) < 2 ^ 31 \<and>
   HT_Insert five_mem full_table 4 =
     Some (None, \<lparr>ht_length = 8, ht_elems = 5,
                  ht_list = [[0], [1], [2], [3], [4], [], [], []]\<rparr>) \<and>
   HT_Lookup five_mem \<lparr>ht_length = 8, ht_elems = 5,
                  ht_list = [[0], [1], [2], [3], [4], [], [], []]\<rparr> ''e'' 4 = Some (Some 4)"
proof -
  have e: "five_mem 4 = Some \<lparr>val = 104, deleter = 0, charge = 1, in_cache = True, refs = 2,
             hash = 4, key_data = ''e''\<rparr>"
    by (simp add: five_mem_def)
  have fresh: "4 \<notin> members full_table" by (simp add: members_def full_table_def)
  have cnt: "ht_elems full_table = of_nat (length (concat (ht_list full_table)))"
    by (simp add: full_table_def)
  have bound: "unat (ht_elems full_table) < 2 ^ 31" by (simp add: full_table_def)
  from HT_Insert_spec [OF table_ok_full e fresh cnt bound] obtain old t' where
    "HT_Insert five_mem full_table 4 = Some (old, t')"
    "HT_Lookup five_mem t' ''e'' 4 = Some (Some 4)"
    by auto
  with HT_Insert_full table_ok_full fresh cnt bound show ?thesis by simp
qed


section \<open>The table of a reachable shard\<close>

text \<open>
  The table of every reachable shard meets what the result on table insert above assumes
  of a table: it is well formed and its counter is the number of its entries.
\<close>

text \<open>The counter \<open>elems_\<close> is the number of entries linked into the table (the
  condition that \<open>Resize\<close> asserts).\<close>

definition count_ok :: "HandleTable \<Rightarrow> bool" where
  "count_ok t \<longleftrightarrow> ht_elems t = of_nat (length (concat (ht_list t)))"

lemma HT_Remove_count:
  assumes ok: "table_ok M t" and c: "count_ok t"
    and rm: "HT_Remove M t k h = Some (r, t')"
  shows "count_ok t'"
proof -
  from rm obtain ptr where fp: "FindPointer M t k h = Some ptr"
    by (auto simp: HT_Remove_def split: bind_splits)
  let ?c = "ht_list t ! fst ptr"
  have b: "fst ptr < length (ht_list t)" using fp by (rule FindPointer_bucket)
  show ?thesis
  proof (cases "snd ptr < length ?c")
    case True
    with rm fp have t': "t' = t\<lparr>ht_list := (ht_list t)[fst ptr :=
        take (snd ptr) ?c @ drop (Suc (snd ptr)) ?c], ht_elems := ht_elems t - 1\<rparr>"
      by (auto simp: HT_Remove_def slot_def Let_def)
    from length_concat_update [OF b, of "take (snd ptr) ?c @ drop (Suc (snd ptr)) ?c"] True
    have "Suc (length (concat (ht_list t'))) = length (concat (ht_list t))"
      by (simp add: t')
    then have "(of_nat (length (concat (ht_list t))) :: uint32_t) =
        of_nat (Suc (length (concat (ht_list t'))))"
      by simp
    then have "of_nat (length (concat (ht_list t))) =
        (of_nat (length (concat (ht_list t'))) + 1 :: uint32_t)"
      by simp
    with c show ?thesis by (simp add: count_ok_def t')
  next
    case False
    with rm fp have "t' = t" by (auto simp: HT_Remove_def slot_def Let_def)
    with c show ?thesis by simp
  qed
qed

lemma HT_Insert_count:
  assumes ok: "table_ok M t" and e: "M h = Some e" and fresh: "h \<notin> members t"
    and c: "count_ok t" and ins: "HT_Insert M t h = Some (old, t')"
  shows "count_ok t'"
proof -
  from HT_Insert_linked [OF ok e fresh] obtain old1 t1 where
    ok1: "table_ok M t1" and el1: "ht_elems t1 = ht_elems t" and
    cnt1: "length (concat (ht_list t1)) =
      (if old1 = None then Suc (length (concat (ht_list t))) else length (concat (ht_list t)))" and
    eq: "HT_Insert M t h =
      (if old1 = None then
         (if ht_length t < ht_elems t + 1
          then map_option (Pair None) (Resize M (t1\<lparr>ht_elems := ht_elems t + 1\<rparr>))
          else Some (None, t1\<lparr>ht_elems := ht_elems t + 1\<rparr>))
       else Some (old1, t1))"
    by blast
  let ?t2 = "t1\<lparr>ht_elems := ht_elems t + 1\<rparr>"
  consider (displaced) "old1 \<noteq> None" "t' = t1"
    | (linked) "old1 = None" "t' = ?t2"
    | (resized) "old1 = None" "Resize M ?t2 = Some t'"
    using ins eq by (auto split: if_splits)
  then show ?thesis
  proof cases
    case displaced
    with c cnt1 el1 show ?thesis by (simp add: count_ok_def)
  next
    case linked
    with c cnt1 show ?thesis by (simp add: count_ok_def)
  next
    case resized
    have ok2: "table_ok M ?t2" using ok1 by simp
    from resized(2) have "ht_elems t' = ht_elems ?t2"
      by (auto simp: Resize_def split: bind_splits)
    with Resize_count [OF ok2 resized(2)] c cnt1 resized(1) show ?thesis
      by (simp add: count_ok_def)
  qed
qed

lemma FinishErase_count:
  "FinishErase r (s\<lparr>table := t\<rparr>) = Some (b, s') \<Longrightarrow> count_ok t \<Longrightarrow> count_ok (table s')"
  by (auto dest: FinishErase_table)

lemma Erase_count:
  assumes inv: "shard_inv_ex {} s" and c: "count_ok (table s)" and er: "Erase k h s = Some s'"
  shows "count_ok (table s')"
proof -
  from er obtain r t b where rm: "HT_Remove (mem s) (table s) k h = Some (r, t)"
    and fe: "FinishErase r (s\<lparr>table := t\<rparr>) = Some (b, s')"
    by (auto simp: Erase_def split: bind_splits)
  from HT_Remove_count [OF inv_table_ok [OF inv] c rm] fe show ?thesis
    by (auto dest: FinishErase_count)
qed

lemma evict_oldest_count:
  assumes inv: "shard_inv_ex {} s" and c: "count_ok (table s)"
    and ev: "evict_oldest s = Some s'"
  shows "count_ok (table s')"
proof -
  from ev obtain e :: LRUHandle and r t b where
    rm: "HT_Remove (mem s) (table s) (key_data e) (hash e) = Some (r, t)"
    and fe: "FinishErase r (s\<lparr>table := t\<rparr>) = Some (b, s')"
    by (auto simp: evict_oldest_def split: list.splits bind_splits)
  from HT_Remove_count [OF inv_table_ok [OF inv] c rm] fe show ?thesis
    by (auto dest: FinishErase_count)
qed

lemma Insert_loop_count:
  "shard_inv_ex {} s \<Longrightarrow> count_ok (table s) \<Longrightarrow> Insert_loop s = Some s' \<Longrightarrow>
   count_ok (table s')"
proof (induction s rule: Insert_loop.induct)
  case (1 s)
  show ?case
  proof (cases "usage s > capacity s \<and> lru s \<noteq> []")
    case True
    with "1.prems"(3) obtain s1 where s1: "evict_oldest s = Some s1" "Insert_loop s1 = Some s'"
      by (subst (asm) Insert_loop.simps) (auto split: option.splits)
    from "1.IH" [OF True s1(1) evict_oldest_inv [OF "1.prems"(1) s1(1)]
        evict_oldest_count [OF "1.prems"(1,2) s1(1)] s1(2)]
    show ?thesis .
  next
    case False
    with "1.prems"(3) have "s' = s"
      by (subst (asm) Insert_loop.simps) auto
    with "1.prems"(2) show ?thesis by simp
  qed
qed

lemma Prune_count:
  "shard_inv_ex {} s \<Longrightarrow> count_ok (table s) \<Longrightarrow> Prune s = Some s' \<Longrightarrow>
   count_ok (table s')"
proof (induction s rule: Prune.induct)
  case (1 s)
  show ?case
  proof (cases "lru s \<noteq> []")
    case True
    with "1.prems"(3) obtain s1 where s1: "evict_oldest s = Some s1" "Prune s1 = Some s'"
      by (subst (asm) Prune.simps) (auto split: option.splits)
    from "1.IH" [OF True s1(1) evict_oldest_inv [OF "1.prems"(1) s1(1)]
        evict_oldest_count [OF "1.prems"(1,2) s1(1)] s1(2)]
    show ?thesis .
  next
    case False
    with "1.prems"(3) have "s' = s"
      by (subst (asm) Prune.simps) auto
    with "1.prems"(2) show ?thesis by simp
  qed
qed

lemma Insert_count:
  assumes inv: "shard_inv_ex {} s" and c: "count_ok (table s)"
    and ins: "Insert k h v ch d s = Some (p, s')"
  shows "count_ok (table s')"
proof (cases "capacity s > 0")
  case False
  with ins have "Insert_loop (allocated k h v ch d s) = Some s'"
    unfolding Insert_unfold by (auto simp: Let_def allocated_def split: bind_splits)
  moreover have "shard_inv_ex {} (allocated k h v ch d s)"
    unfolding allocated_def using inv_alloc0 [OF inv] by simp
  moreover have "count_ok (table (allocated k h v ch d s))"
    using c by (simp add: allocated_def)
  ultimately show ?thesis by (auto intro: Insert_loop_count)
next
  case True
  let ?e = "\<lparr>val = v, deleter = d, charge = ch, in_cache = True, refs = 2,
     hash = h, key_data = k\<rparr>"
  let ?s2 = "s\<lparr>mem := (mem s)(brk s \<mapsto> ?e), brk := Suc (brk s),
     in_use := in_use s @ [brk s], usage := usage s + ch\<rparr>"
  from ins True obtain old t b s1 where
    hi: "HT_Insert ((mem s)(brk s \<mapsto> ?e)) (table s) (brk s) = Some (old, t)"
    and fe: "FinishErase old (?s2\<lparr>table := t\<rparr>) = Some (b, s1)"
    and loop: "Insert_loop s1 = Some s'"
    unfolding Insert_unfold by (auto simp: Let_def split: bind_splits)
  have inv2: "shard_inv_ex {brk s} ?s2"
    using inv_alloc [OF inv, of ?e] by simp
  have ok2: "table_ok ((mem s)(brk s \<mapsto> ?e)) (table s)"
    using inv_table_ok [OF inv2] by simp
  have fresh: "brk s \<notin> members (table s)"
    using inv_members [OF inv2] by auto
  have me: "((mem s)(brk s \<mapsto> ?e)) (brk s) = Some ?e" by simp
  from HT_Insert_count [OF ok2 me fresh c hi] have ct: "count_ok t" .
  note io = HT_Insert_ok [OF ok2 me fresh hi]
  have old_in: "set_option old \<subseteq> members (table s)"
  proof (cases old)
    case None then show ?thesis by simp
  next
    case (Some q)
    with io(1) HT_Lookup_Some_iff [OF ok2] show ?thesis by auto
  qed
  have "members t = set (lru ?s2 @ in_use ?s2) - set_option old"
    using io(3) inv_members [OF inv] old_in fresh by auto
  with inv2 io(2) have "shard_inv_ex (set_option old) (?s2\<lparr>table := t\<rparr>)"
    by (intro inv_set_table [OF inv2]) simp_all
  then have inv1: "shard_inv_ex {} s1" using fe by (rule FinishErase_opt_inv)
  from FinishErase_count [OF fe ct] have "count_ok (table s1)" .
  with inv1 show ?thesis using loop by (rule Insert_loop_count)
qed

lemma apply_op_count:
  assumes inv: "shard_inv_ex {} s" and c: "count_ok (table s)"
    and a: "apply_op x s = Some s'"
  shows "count_ok (table s')"
proof (cases x)
  case (OpInsert k h v ch d)
  with a obtain p where "Insert k h v ch d s = Some (p, s')" by auto
  with inv c show ?thesis by (rule Insert_count)
next
  case (OpLookup k h)
  with a obtain r where "Lookup k h s = Some (r, s')" by auto
  from Lookup_table [OF this] c show ?thesis by simp
next
  case (OpRelease p)
  with a have "Unref p s = Some s'" by (simp add: Release_def)
  from Unref_table [OF this] c show ?thesis by simp
next
  case (OpErase k h)
  with a inv c show ?thesis by (auto intro: Erase_count)
next
  case OpPrune
  with a inv c show ?thesis by (auto intro: Prune_count)
qed

text \<open>In every reachable state the table of the shard is well formed and its counter is
  the number of its entries.\<close>

lemma reachable_table:
  "reachable c s \<Longrightarrow> table_ok (mem s) (table s) \<and> count_ok (table s)"
proof (induction rule: reachable.induct)
  case (reachable_new s)
  then show ?case by (auto simp: NewLRUCache_eq table_ok_new count_ok_def)
next
  case (reachable_step s x s')
  from reachable_step.hyps(1) have inv: "shard_inv_ex {} s" by (rule reachable_inv)
  from reachable_step.hyps(1,2) have "reachable c s'" by (rule reachable.reachable_step)
  then have "shard_inv_ex {} s'" by (rule reachable_inv)
  with apply_op_count [OF inv _ reachable_step.hyps(2)] reachable_step.IH
  show ?case by (auto dest: inv_table_ok)
qed

end
